theory Spec2Isabelle
  imports Main
begin

section \<open>Shapes and errors\<close>

text \<open>
  The Snippet node of the CPU plugin (\<^verbatim>\<open>nodes/subgraph.cpp\<close>) works on static shapes
  once \<^verbatim>\<open>masterShape.get_shape()\<close> has succeeded: a shape is the list of its extents,
  outermost first. Extents and work amounts are \<^verbatim>\<open>size_t\<close> in the source and natural
  numbers here; byte offsets are \<^verbatim>\<open>int64_t\<close> in the source and integers here. The 64-bit
  range is not modelled: the element count of a tensor held in memory fits it. The one
  place where the source narrows a product to a 32-bit \<^verbatim>\<open>int\<close> is modelled with its
  truncation (\<open>accumulate_mul\<close> below).
\<close>

type_synonym shape = "nat list"

datatype error =
    IEThrow        \<comment> \<open>\<^verbatim>\<open>IE_THROW()\<close>\<close>
  | OutOfRange     \<comment> \<open>a read past the end of a vector (undefined behaviour in C++)\<close>
  | DivByZero      \<comment> \<open>an integer division or remainder by zero (undefined behaviour in C++)\<close>

subsection \<open>prependWithOnes\<close>

text \<open>
  \<^verbatim>\<open>std::copy(first, last, &dst[pos])\<close>: the elements of \<open>src\<close> overwrite \<open>dst\<close> from
  position \<open>pos\<close> on. The source only calls it with \<open>pos + length src = length dst\<close>.
\<close>

definition std_copy :: "'a list \<Rightarrow> nat \<Rightarrow> 'a list \<Rightarrow> 'a list" where
  "std_copy src pos dst = take pos dst @ src @ drop (pos + length src) dst"

definition prependWithOnes :: "shape \<Rightarrow> nat \<Rightarrow> shape" where
  "prependWithOnes dims rank =
     (if rank \<le> length dims then dims
      else std_copy dims (rank - length dims) (replicate rank 1))"

subsection \<open>The node's members\<close>

text \<open>
  The members of \<^verbatim>\<open>class Snippet\<close> that scheduling reads and writes. The compiled kernel
  \<^verbatim>\<open>schedule.ptr\<close> is opaque: only whether it is null matters here. The scratchpad is
  represented by its size.
\<close>

record Snippet =
  isDynamic :: bool
  isa_num_lanes :: nat
  dataSize :: nat
  inputShapes_size :: nat
  masterShape :: shape
  normInputShapes :: "shape list"
  normOutputShapes :: "shape list"
  originalNormOutputShapes :: "shape list"
  tensorRank :: nat
  tileRank :: nat
  fullWorkAmount :: nat
  harnessWorkAmount :: nat
  exec_domain :: shape
  data_offsets :: "int list"
  scheduler_offsets :: "int list"
  scheduler_work_amounts :: "nat list"
  broadcasting_mask :: "bool list"
  vector_tile_increments :: "int list"
  scalar_tile_increments :: "int list"
  schedule_ptr_nonnull :: bool
  canUseOptimizedImpl :: bool
  scratchpad_memory_chunk_size :: nat

text \<open>
  Modelled from the spec: the constants \<^verbatim>\<open>maxTileRank\<close> and \<^verbatim>\<open>rank6D\<close> are declared in
  \<^verbatim>\<open>subgraph.h\<close>, which is not among the sources. The spec gives the hard cap of the tile
  rank as 2 and the fixed tensor rank as 6.
\<close>

definition maxTileRank :: nat where
  "maxTileRank = 2"

definition rank6D :: nat where
  "rank6D = 6"

text \<open>\<^verbatim>\<open>sizeof(float)\<close> on the x64 targets of the plugin.\<close>

definition sizeof_float :: nat where
  "sizeof_float = 4"

text \<open>\<^verbatim>\<open>std::vector::resize(n, v)\<close>: keeps the first \<open>n\<close> elements, appends copies of \<open>v\<close>.\<close>

definition resize :: "nat \<Rightarrow> 'a \<Rightarrow> 'a list \<Rightarrow> 'a list" where
  "resize n v xs = take n xs @ replicate (n - length xs) v"

subsection \<open>calcJITParams\<close>

text \<open>The five vectors \<^verbatim>\<open>calcJITParams\<close> receives by reference and fills.\<close>

record jit_params =
  offsets :: "int list"
  sch_offsets :: "int list"
  bmask :: "bool list"
  vector_tile_inc :: "int list"
  scalar_tile_inc :: "int list"

text \<open>
  \<^verbatim>\<open>bmask[io_index++] = static_master_shape.back() != 1 && ps.rbegin()->get_length() == 1\<close>
  for every shape of the list, in order.
\<close>

fun fill_bmask :: "shape \<Rightarrow> shape list \<Rightarrow> nat \<Rightarrow> bool list \<Rightarrow> nat \<times> bool list" where
  "fill_bmask master [] io_index bm = (io_index, bm)"
| "fill_bmask master (ps # rest) io_index bm =
     fill_bmask master rest (Suc io_index) (bm[io_index := (last master \<noteq> 1 \<and> last ps = 1)])"

text \<open>
  The explicit tile increments of the dynamic case: \<^verbatim>\<open>for (int i = 0; i < io_index; i++)\<close>.
  A \<^verbatim>\<open>bool\<close> factor is 1 or 0.
\<close>

definition of_flag :: "bool \<Rightarrow> nat" where
  "of_flag b = (if b then 1 else 0)"

definition tile_inc_loop :: "nat \<Rightarrow> nat \<Rightarrow> bool list \<Rightarrow> int list \<Rightarrow> int list" where
  "tile_inc_loop io_index step bm inc =
     fold (\<lambda>i v. let not_broadcasted = \<not> bm ! i in v[i := int (step * of_flag not_broadcasted)])
       [0..<io_index] inc"

text \<open>
  The lambda \<^verbatim>\<open>offset_calculation\<close>: \<^verbatim>\<open>for (int i = offset_rank - 1; i >= 0; i--)\<close>, written
  with the loop counter one above the index. \<open>base\<close> is where the operand's row starts in
  the flat vector (\<^verbatim>\<open>offsets.data() + i * offset_rank\<close>).
\<close>

fun offset_calculation_loop :: "shape \<Rightarrow> nat \<Rightarrow> shape \<Rightarrow> nat \<Rightarrow> nat \<Rightarrow> int list \<Rightarrow> int list" where
  "offset_calculation_loop master base dims 0 k off = off"
| "offset_calculation_loop master base dims (Suc i) k off =
     (let tmp = (if dims ! i = master ! i then k else 0)
      in offset_calculation_loop master base dims i (k * dims ! i) (off[base + i := int tmp]))"

definition offset_calculation :: "shape \<Rightarrow> nat \<Rightarrow> nat \<Rightarrow> shape \<Rightarrow> int list \<Rightarrow> int list" where
  "offset_calculation master offset_rank base dims off =
     offset_calculation_loop master base dims offset_rank (last dims) off"

text \<open>\<^verbatim>\<open>for (size_t j = i; j < numParams * offset_rank; j += offset_rank) offsets[j] = 0;\<close>
  The loop is only reached with \<open>i < offset_rank\<close>, so the step is positive.\<close>

function zero_out_loop :: "nat \<Rightarrow> nat \<Rightarrow> nat \<Rightarrow> int list \<Rightarrow> int list" where
  "zero_out_loop step bound j off =
     (if j < bound \<and> 0 < step then zero_out_loop step bound (j + step) (off[j := 0]) else off)"
  by pat_completeness auto
termination
  by (relation "measure (\<lambda>(step, bound, j, off). bound - j)") auto

declare zero_out_loop.simps [simp del]

text \<open>The scheduler offsets of the inputs, for a tile of rank 2.\<close>

definition sch_offsets_inputs :: "Snippet \<Rightarrow> nat \<Rightarrow> int list \<Rightarrow> bool list \<Rightarrow> int list \<Rightarrow> int list" where
  "sch_offsets_inputs s offset_rank offs bm sch =
     fold (\<lambda>i sch.
            let off = offs ! ((i + 1) * offset_rank - 1);
                input_shape = normInputShapes s ! i;
                static_master_shape = masterShape s
            in if off > int (dataSize s) then sch[i := 0]
               else if off = int (dataSize s) then sch[i := (if bm ! i then int (dataSize s) else 0)]
               else if input_shape ! (length input_shape - 2)
                         \<noteq> static_master_shape ! (length static_master_shape - 2)
                       \<and> last input_shape \<noteq> 1
                    then sch[i := - 1 * int (static_master_shape ! (length static_master_shape - 1) * dataSize s)]
               else sch)
       [0..<length (normInputShapes s)] sch"

definition sch_offsets_outputs :: "Snippet \<Rightarrow> nat \<Rightarrow> int list \<Rightarrow> int list \<Rightarrow> int list" where
  "sch_offsets_outputs s offset_rank offs sch =
     (let numInputs = length (normInputShapes s)
      in fold (\<lambda>i sch.
            let off = offs ! ((i + 1 + numInputs) * offset_rank - 1)
            in sch[i + numInputs := off - int (last (masterShape s) * dataSize s)])
          [0..<length (normOutputShapes s)] sch)"

text \<open>
  \<^verbatim>\<open>Snippet::calcJITParams\<close>. Every shape is read at the positions of the master shape, so
  the function is meaningful when the master shape is not empty and every normalised
  shape has its rank (\<^verbatim>\<open>normalizeShapes\<close> pads them all to \<^verbatim>\<open>tensorRank\<close>).
\<close>

definition calcJITParams :: "Snippet \<Rightarrow> jit_params \<Rightarrow> jit_params" where
  "calcJITParams s p =
     (let inputShapes = normInputShapes s;
          outputShapes = normOutputShapes s;
          static_master_shape = masterShape s;
          numInputs = length inputShapes;
          numParams = numInputs + length outputShapes;
          bm0 = resize (length inputShapes + length outputShapes) False (bmask p);
          (io1, bm1) = fill_bmask static_master_shape inputShapes 0 bm0;
          (io_index, bm) = fill_bmask static_master_shape outputShapes io1 bm1;
          vinc = (if isDynamic s
                  then tile_inc_loop io_index (isa_num_lanes s * sizeof_float) bm
                         (resize io_index 0 (vector_tile_inc p))
                  else vector_tile_inc p);
          sinc = (if isDynamic s
                  then tile_inc_loop io_index sizeof_float bm (resize io_index 0 (scalar_tile_inc p))
                  else scalar_tile_inc p);
          offset_rank = length static_master_shape - 1;
          off0 = resize (numParams * offset_rank) 1 (offsets p);
          off1 = fold (\<lambda>i off. offset_calculation static_master_shape offset_rank (i * offset_rank)
                                  (if i < numInputs then inputShapes ! i else outputShapes ! (i - numInputs)) off)
                   [0..<numParams] off0;
          off2 = fold (\<lambda>i off. if static_master_shape ! i = 1
                                then zero_out_loop offset_rank (numParams * offset_rank) i off else off)
                   [0..<offset_rank] off1;
          off3 = map (\<lambda>d. d * int (dataSize s)) off2;
          sch0 = replicate numParams 0;
          sch = (if tileRank s > 1
                 then sch_offsets_outputs s offset_rank off3
                        (sch_offsets_inputs s offset_rank off3 bm sch0)
                 else sch0)
      in \<lparr> offsets = off3, sch_offsets = sch, bmask = bm,
           vector_tile_inc = vinc, scalar_tile_inc = sinc \<rparr>)"

subsection \<open>optimizeExecDomain\<close>

text \<open>
  The lambda \<^verbatim>\<open>collapseLastDims\<close>. Its three loops count an \<^verbatim>\<open>int i\<close> downwards; each is
  written with the loop counter one above the index.

  \<^verbatim>\<open>for (int i = dims.size() - 2; i > dims.size() - dimsToCollapse - 2; i--)\<close>
  \<^verbatim>\<open>    dims[dims.size() - 1] *= dims[i];\<close>
\<close>

fun collapse_mul_loop :: "nat \<Rightarrow> nat \<Rightarrow> shape \<Rightarrow> shape" where
  "collapse_mul_loop 0 lo dims = dims"
| "collapse_mul_loop (Suc i) lo dims =
     (if i > lo
      then collapse_mul_loop i lo (dims[length dims - 1 := dims ! (length dims - 1) * dims ! i])
      else dims)"

text \<open>\<^verbatim>\<open>for (int i = dims.size() - 2; i >= dimsToCollapse; i--) dims[i] = dims[i - dimsToCollapse];\<close>\<close>

fun collapse_shift_loop :: "nat \<Rightarrow> nat \<Rightarrow> shape \<Rightarrow> shape" where
  "collapse_shift_loop 0 dimsToCollapse dims = dims"
| "collapse_shift_loop (Suc i) dimsToCollapse dims =
     (if i \<ge> dimsToCollapse
      then collapse_shift_loop i dimsToCollapse (dims[i := dims ! (i - dimsToCollapse)])
      else dims)"

text \<open>\<^verbatim>\<open>for (int i = dimsToCollapse - 1; i >= 0; i--) dims[i] = 1;\<close>\<close>

fun collapse_ones_loop :: "nat \<Rightarrow> shape \<Rightarrow> shape" where
  "collapse_ones_loop 0 dims = dims"
| "collapse_ones_loop (Suc i) dims = collapse_ones_loop i (dims[i := 1])"

text \<open>
  The guard compares unsigned values: on an empty shape \<^verbatim>\<open>dims.size() - 1\<close> wraps around and
  the loops read before the vector; with \<^verbatim>\<open>dimsToCollapse = 0\<close> the second loop never
  stops at index 0 and reads before the vector as well.
\<close>

definition collapseLastDims :: "shape \<Rightarrow> nat \<Rightarrow> error + shape" where
  "collapseLastDims dims dimsToCollapse =
     (if dims = [] then Inl OutOfRange
      else if dimsToCollapse \<ge> length dims - 1 then Inl IEThrow
      else if dimsToCollapse = 0 then Inl OutOfRange
      else Inr (collapse_ones_loop dimsToCollapse
                 (collapse_shift_loop (length dims - 1) dimsToCollapse
                   (collapse_mul_loop (length dims - 1) (length dims - dimsToCollapse - 2) dims))))"

text \<open>\<^verbatim>\<open>for (auto &d : shapes) collapseLastDims(d, 1);\<close> An exception leaves the loop.\<close>

fun collapse_all :: "shape list \<Rightarrow> error + shape list" where
  "collapse_all [] = Inr []"
| "collapse_all (d # ds) =
     (case collapseLastDims d 1 of
        Inl e \<Rightarrow> Inl e
      | Inr d' \<Rightarrow> (case collapse_all ds of Inl e \<Rightarrow> Inl e | Inr ds' \<Rightarrow> Inr (d' # ds')))"

text \<open>
  An operand broadcasts on exactly one of its two trailing dimensions: the test of the
  \<^verbatim>\<open>canCollapse\<close> loop.
\<close>

definition broadcast_mismatch :: "shape \<Rightarrow> bool" where
  "broadcast_mismatch sh =
     (let lastd = length sh - 1
      in (sh ! (lastd - 1) \<noteq> 1 \<and> sh ! lastd = 1) \<or> (sh ! (lastd - 1) = 1 \<and> sh ! lastd \<noteq> 1))"

text \<open>
  The \<^verbatim>\<open>canCollapse\<close> loop over the input shapes, left at the first mismatch. A shape of
  rank below 2 is read before its start.
\<close>

fun canCollapse_loop :: "shape list \<Rightarrow> error + bool" where
  "canCollapse_loop [] = Inr True"
| "canCollapse_loop (sh # rest) =
     (if length sh < 2 then Inl OutOfRange
      else if broadcast_mismatch sh then Inr False
      else canCollapse_loop rest)"

definition minimalJitWorkAmount :: nat where
  "minimalJitWorkAmount = 256"

text \<open>What the loop of \<^verbatim>\<open>findDimsToCollapse\<close> leaves in the variables it updates.\<close>

record collapse_result =
  res_inputShapes :: "shape list"
  res_outputShapes :: "shape list"
  res_domain :: shape
  res_TileRank :: nat
  res_collapsedDims :: nat

text \<open>
  The \<^verbatim>\<open>while\<close> loop of \<^verbatim>\<open>findDimsToCollapse\<close>: one call is one test of the loop condition.
  \<^verbatim>\<open>minimalConcurrency\<close> is \<^verbatim>\<open>parallel_get_max_threads()\<close>; \<^verbatim>\<open>fullWorkAmount\<close> is the member
  \<^verbatim>\<open>prepareParams\<close> has set.
\<close>

function findDimsToCollapse_loop ::
  "nat \<Rightarrow> nat \<Rightarrow> nat \<Rightarrow> nat \<Rightarrow> shape list \<Rightarrow> shape list \<Rightarrow> shape \<Rightarrow> nat \<Rightarrow> error + collapse_result" where
  "findDimsToCollapse_loop minimalConcurrency fullWA collapsedDims currentJitWorkAmount
       ins outs domain TileRank =
     (if currentJitWorkAmount < minimalJitWorkAmount \<and> currentJitWorkAmount < fullWA
      then
        if int (length domain) - int collapsedDims - 2 < 0
        then Inr \<lparr> res_inputShapes = ins, res_outputShapes = outs, res_domain = domain,
                   res_TileRank = TileRank, res_collapsedDims = collapsedDims \<rparr>
        else
          (case canCollapse_loop ins of
             Inl e \<Rightarrow> Inl e
           | Inr canCollapse \<Rightarrow>
               let nextJitWorkAmount = currentJitWorkAmount * domain ! (length domain - 2)
               in if nextJitWorkAmount = 0 then Inl DivByZero
                  else if fullWA div nextJitWorkAmount \<ge> minimalConcurrency
                  then
                    if \<not> canCollapse
                    then
                      if TileRank < maxTileRank
                      then findDimsToCollapse_loop minimalConcurrency fullWA collapsedDims
                             nextJitWorkAmount ins outs domain (TileRank + 1)
                      else Inr \<lparr> res_inputShapes = ins, res_outputShapes = outs, res_domain = domain,
                                 res_TileRank = TileRank, res_collapsedDims = collapsedDims \<rparr>
                    else
                      (case collapse_all ins of
                         Inl e \<Rightarrow> Inl e
                       | Inr ins' \<Rightarrow>
                           (case collapse_all outs of
                              Inl e \<Rightarrow> Inl e
                            | Inr outs' \<Rightarrow>
                                (case collapseLastDims domain 1 of
                                   Inl e \<Rightarrow> Inl e
                                 | Inr domain' \<Rightarrow>
                                     findDimsToCollapse_loop minimalConcurrency fullWA
                                       (collapsedDims + 1) nextJitWorkAmount ins' outs' domain' TileRank)))
                  else Inr \<lparr> res_inputShapes = ins, res_outputShapes = outs, res_domain = domain,
                             res_TileRank = TileRank, res_collapsedDims = collapsedDims \<rparr>)
      else Inr \<lparr> res_inputShapes = ins, res_outputShapes = outs, res_domain = domain,
                 res_TileRank = TileRank, res_collapsedDims = collapsedDims \<rparr>)"
  by pat_completeness auto

lemma collapse_mul_loop_length: "length (collapse_mul_loop i lo dims) = length dims"
  by (induction i arbitrary: dims) auto

lemma collapse_shift_loop_length: "length (collapse_shift_loop i c dims) = length dims"
  by (induction i arbitrary: dims) auto

lemma collapse_ones_loop_length: "length (collapse_ones_loop i dims) = length dims"
  by (induction i arbitrary: dims) auto

lemma collapseLastDims_length: "collapseLastDims dims c = Inr dims' \<Longrightarrow> length dims' = length dims"
  by (auto simp: collapseLastDims_def collapse_mul_loop_length collapse_shift_loop_length
      collapse_ones_loop_length split: if_splits)

termination findDimsToCollapse_loop
proof (relation "measure (\<lambda>(mc, fullWA, collapsedDims, cur, ins, outs, domain, TileRank).
                     (length domain - collapsedDims) + (maxTileRank - TileRank))", goal_cases)
  case 1
  show ?case by simp
next
  case 2
  then show ?case by simp
next
  case (3 mc fullWA collapsedDims cur ins outs domain TileRank canCollapse nextJ ins' outs' domain')
  then have "length domain' = length domain" by (simp add: collapseLastDims_length)
  moreover have "collapsedDims + 2 \<le> length domain" using 3 by simp
  ultimately show ?case by simp
qed

declare findDimsToCollapse_loop.simps [simp del]

text \<open>
  \<^verbatim>\<open>findDimsToCollapse\<close>: \<^verbatim>\<open>domain[domain.size() - 1]\<close> of an empty domain reads before the
  vector.
\<close>

definition findDimsToCollapse ::
  "nat \<Rightarrow> nat \<Rightarrow> shape list \<Rightarrow> shape list \<Rightarrow> shape \<Rightarrow> nat \<Rightarrow> error + collapse_result" where
  "findDimsToCollapse max_threads fullWA ins outs domain TileRank =
     (if domain = [] then Inl OutOfRange
      else findDimsToCollapse_loop max_threads fullWA 0 (domain ! (length domain - 1)) ins outs domain TileRank)"

text \<open>
  \<^verbatim>\<open>Snippet::optimizeExecDomain\<close> updates its four reference parameters; the value the lambda
  returns is dropped.
\<close>

definition optimizeExecDomain ::
  "nat \<Rightarrow> nat \<Rightarrow> shape list \<Rightarrow> shape list \<Rightarrow> shape \<Rightarrow> nat
     \<Rightarrow> error + (shape list \<times> shape list \<times> shape \<times> nat)" where
  "optimizeExecDomain max_threads fullWA ins outs domain TileRank =
     (case findDimsToCollapse max_threads fullWA ins outs domain TileRank of
        Inl e \<Rightarrow> Inl e
      | Inr r \<Rightarrow> Inr (res_inputShapes r, res_outputShapes r, res_domain r, res_TileRank r))"

text \<open>The state of the loop, as the result it gives when it stops there.\<close>

definition state_result :: "shape list \<Rightarrow> shape list \<Rightarrow> shape \<Rightarrow> nat \<Rightarrow> nat \<Rightarrow> collapse_result" where
  "state_result ins outs domain TileRank collapsedDims =
     \<lparr> res_inputShapes = ins, res_outputShapes = outs, res_domain = domain,
       res_TileRank = TileRank, res_collapsedDims = collapsedDims \<rparr>"

text \<open>
  The loop condition together with the rank test that follows it: the loop goes on to
  look at the next fold.
\<close>

definition loop_entered :: "nat \<Rightarrow> nat \<Rightarrow> nat \<Rightarrow> shape \<Rightarrow> bool" where
  "loop_entered fullWA collapsedDims cur domain =
     (cur < minimalJitWorkAmount \<and> cur < fullWA \<and> collapsedDims + 2 \<le> length domain)"

text \<open>\<^verbatim>\<open>nextJitWorkAmount = currentJitWorkAmount * domain[domain.size() - 2].get_length()\<close>\<close>

definition next_amount :: "nat \<Rightarrow> shape \<Rightarrow> nat" where
  "next_amount cur domain = cur * domain ! (length domain - 2)"

text \<open>
  What \<^verbatim>\<open>collapseLastDims(dims, 1)\<close> makes of a shape of rank 3 or more (lemma
  \<open>collapseLastDims_one\<close>): the innermost extent multiplied by its neighbour, the other
  extents moved one place inwards, 1 in front.
\<close>

definition folded :: "shape \<Rightarrow> shape" where
  "folded dims = 1 # take (length dims - 2) dims
                   @ [dims ! (length dims - 1) * dims ! (length dims - 2)]"

text \<open>
  The fold as claim C3 words it, for comparison with the source: the innermost extent is
  multiplied by the folded extent (the one next to it) and "the folded position" is
  replaced with 1, every other extent staying in its place.
\<close>

definition fold_as_claimed :: "shape \<Rightarrow> shape" where
  "fold_as_claimed dims =
     dims[length dims - 1 := dims ! (length dims - 1) * dims ! (length dims - 2),
          length dims - 2 := 1]"

text \<open>
  A valid input of the domain optimizer: a domain of rank at least 3 (the node pads to
  rank 6 or more) and operand shapes of the rank of the domain.
\<close>

definition exec_domain_valid :: "shape list \<Rightarrow> shape list \<Rightarrow> shape \<Rightarrow> bool" where
  "exec_domain_valid ins outs domain =
     (3 \<le> length domain \<and> list_all (\<lambda>sh. length sh = length domain) (ins @ outs))"

subsection \<open>prepareParams\<close>

text \<open>
  \<^verbatim>\<open>std::accumulate(tmpShape.begin(), tmpShape.end(), 1, std::multiplies<size_t>())\<close>: the
  initial value \<^verbatim>\<open>1\<close> is an \<^verbatim>\<open>int\<close>, so the accumulator is a 32-bit \<^verbatim>\<open>int\<close>. In each step it
  is converted to \<^verbatim>\<open>size_t\<close>, multiplied modulo \<open>2 ^ 64\<close>, and the product is narrowed to
  \<^verbatim>\<open>int\<close> again; the final \<^verbatim>\<open>int\<close> is converted to the \<^verbatim>\<open>size_t\<close> member \<^verbatim>\<open>fullWorkAmount\<close>.
\<close>

definition to_int32 :: "nat \<Rightarrow> int" where
  "to_int32 n = signed_take_bit 31 (int n)"

definition to_size_t :: "int \<Rightarrow> nat" where
  "to_size_t i = nat (take_bit 64 i)"

fun accumulate_mul :: "shape \<Rightarrow> int \<Rightarrow> int" where
  "accumulate_mul [] init = init"
| "accumulate_mul (x # xs) init = accumulate_mul xs (to_int32 (take_bit 64 (to_size_t init * x)))"

text \<open>
  The last loop of \<^verbatim>\<open>prepareParams\<close>, over reverse iterators of \<^verbatim>\<open>exec_domain\<close> and
  \<^verbatim>\<open>scheduler_work_amounts\<close>: iteration \<open>i\<close> reads and writes the entries \<open>i\<close> places
  before the end. The state of the loop is \<^verbatim>\<open>harnessWorkAmount\<close>, \<^verbatim>\<open>scheduler_work_amounts\<close>
  and \<^verbatim>\<open>exec_domain\<close>.
\<close>

definition tile_step :: "nat \<Rightarrow> nat \<times> nat list \<times> shape \<Rightarrow> error + (nat \<times> nat list \<times> shape)" where
  "tile_step i acc =
     (case acc of (harness, sched, exec) \<Rightarrow>
        if i \<ge> length exec \<or> i \<ge> length sched then Inl OutOfRange
        else let exec_it = length exec - 1 - i; scheduler_it = length sched - 1 - i
             in if exec ! exec_it = 0 then Inl DivByZero
                else Inr (harness div exec ! exec_it,
                          sched[scheduler_it := exec ! exec_it],
                          exec[exec_it := 1]))"

definition tile_loop :: "nat \<Rightarrow> nat \<times> nat list \<times> shape \<Rightarrow> error + (nat \<times> nat list \<times> shape)" where
  "tile_loop tile_rank acc =
     fold (\<lambda>i r. case r of Inl e \<Rightarrow> Inl e | Inr a \<Rightarrow> tile_step i a) [0..<tile_rank] (Inr acc)"

text \<open>
  \<^verbatim>\<open>Snippet::prepareParams\<close>. The precision size of the selected descriptor and, on the
  dynamic path, the shapes of this inference come from outside the file: the dynamic
  branch reads the live input shapes from the memory of the edges and merges them with
  \<^verbatim>\<open>ov::PartialShape::broadcast_merge_into\<close>; what it leaves in \<^verbatim>\<open>masterShape\<close>,
  \<^verbatim>\<open>normInputShapes\<close> and \<^verbatim>\<open>normOutputShapes\<close> is the parameter \<open>live\<close>. The memory pointers
  and start offsets (\<^verbatim>\<open>initStartMemoryOffsets\<close>) play no part in scheduling and are left out.
\<close>

definition prepareParams ::
  "Snippet \<Rightarrow> nat \<Rightarrow> shape \<times> shape list \<times> shape list \<Rightarrow> nat \<Rightarrow> error + Snippet" where
  "prepareParams s precision_size live max_threads =
     (let s1 = s\<lparr> dataSize := precision_size \<rparr>;
          s2 = (if isDynamic s1
                then (case live of (live_master, live_inputs, live_outputs) \<Rightarrow>
                        s1\<lparr> masterShape := live_master, normInputShapes := live_inputs,
                            normOutputShapes := live_outputs \<rparr>)
                else s1\<lparr> normOutputShapes := originalNormOutputShapes s1 \<rparr>);
          tmpShape = masterShape s2;
          s3 = s2\<lparr> tileRank := 1, fullWorkAmount := to_size_t (accumulate_mul tmpShape 1) \<rparr>
      in case optimizeExecDomain max_threads (fullWorkAmount s3) (normInputShapes s3)
                (normOutputShapes s3) (masterShape s3) (tileRank s3) of
           Inl e \<Rightarrow> Inl e
         | Inr (ins, outs, domain, tr) \<Rightarrow>
             let s4 = s3\<lparr> normInputShapes := ins, normOutputShapes := outs, masterShape := domain,
                          tileRank := tr, exec_domain := domain \<rparr>;
                 p = calcJITParams s4
                       \<lparr> offsets = data_offsets s4, sch_offsets = scheduler_offsets s4,
                         bmask = broadcasting_mask s4,
                         vector_tile_inc = vector_tile_increments s4,
                         scalar_tile_inc = scalar_tile_increments s4 \<rparr>;
                 s5 = s4\<lparr> data_offsets := offsets p, scheduler_offsets := sch_offsets p,
                          broadcasting_mask := bmask p,
                          vector_tile_increments := vector_tile_inc p,
                          scalar_tile_increments := scalar_tile_inc p \<rparr>;
                 sched0 = resize maxTileRank 1 (scheduler_work_amounts s5)
             in case tile_loop (tileRank s5) (fullWorkAmount s5, sched0, exec_domain s5) of
                  Inl e \<Rightarrow> Inl e
                | Inr (harness, sched, exec) \<Rightarrow>
                    Inr (s5\<lparr> scheduler_work_amounts := sched, harnessWorkAmount := harness,
                             exec_domain := exec \<rparr>))"

text \<open>
  The shapes \<^verbatim>\<open>prepareParams\<close> starts from: those of this inference on the dynamic path,
  the members set by \<^verbatim>\<open>normalizeShapes\<close> on the static path.
\<close>

definition entry_shapes :: "Snippet \<Rightarrow> shape \<times> shape list \<times> shape list \<Rightarrow> shape \<times> shape list \<times> shape list" where
  "entry_shapes s live =
     (if isDynamic s then live else (masterShape s, normInputShapes s, originalNormOutputShapes s))"

text \<open>
  \<^verbatim>\<open>Snippet::createPrimitive\<close>, once \<^verbatim>\<open>normalizeShapes\<close> has set the shapes: on the static path
  \<^verbatim>\<open>prepareParams\<close> runs and the kernel is generated from what it computed; on the dynamic
  path the kernel is generated at once. The generator (\<^verbatim>\<open>snippet->generate\<close>) is outside the
  file and is taken to return a kernel.
\<close>

definition createPrimitive :: "Snippet \<Rightarrow> nat \<Rightarrow> nat \<Rightarrow> error + Snippet" where
  "createPrimitive s precision_size max_threads =
     (if \<not> isDynamic s
      then (case prepareParams s precision_size
                   (masterShape s, normInputShapes s, originalNormOutputShapes s) max_threads of
              Inl e \<Rightarrow> Inl e
            | Inr s' \<Rightarrow> Inr (s'\<lparr> schedule_ptr_nonnull := True \<rparr>))
      else Inr (s\<lparr> schedule_ptr_nonnull := True \<rparr>))"

subsection \<open>The parallel primitives\<close>

text \<open>
  Modelled from the spec: \<^verbatim>\<open>splitter\<close>, \<^verbatim>\<open>parallel_nt\<close> and \<^verbatim>\<open>parallel_for5d\<close> come from
  \<^verbatim>\<open>ie_parallel.hpp\<close>, which is not among the sources. The spec describes them as
  "a flat work-amount partitioner returning \<open>[start, end)\<close> per thread" that
  "statically partition[s] contiguous index ranges across available threads (even split,
  remainder to low-index threads)", "thread-count/current-thread-id queries", and
  "5-dimensional parallel iteration with runtime-chosen thread count", with "one kernel
  call per unique coordinate tuple".
\<close>

definition splitter :: "nat \<Rightarrow> nat \<Rightarrow> nat \<Rightarrow> nat \<times> nat" where
  "splitter n team tid =
     (let q = n div team; r = n mod team; n_start = tid * q + min tid r
      in (n_start, n_start + q + (if tid < r then 1 else 0)))"

text \<open>
  Modelled from the spec: \<^verbatim>\<open>parallel_nt(0, body)\<close> runs \<^verbatim>\<open>body(ithr, nthr)\<close> once on each of the
  \<open>nthr\<close> threads. What the threads do is kept per thread; the order across threads is
  not represented.
\<close>

definition parallel_nt :: "nat \<Rightarrow> (nat \<Rightarrow> nat \<Rightarrow> 'a) \<Rightarrow> 'a list" where
  "parallel_nt nthr body = map (\<lambda>ithr. body ithr nthr) [0..<nthr]"

text \<open>
  The mixed-radix digits of a linear index over a list of extents, outermost first (the
  innermost extent is the least significant digit).
\<close>

fun mixed_radix_rev :: "nat list \<Rightarrow> nat \<Rightarrow> nat list" where
  "mixed_radix_rev [] i = []"
| "mixed_radix_rev (d # ds) i = (i mod d) # mixed_radix_rev ds (i div d)"

definition mixed_radix :: "nat list \<Rightarrow> nat \<Rightarrow> nat list" where
  "mixed_radix ds i = rev (mixed_radix_rev (rev ds) i)"

text \<open>
  Modelled from the spec: \<^verbatim>\<open>parallel_for5d(D0, D1, D2, D3, D4, body)\<close> splits the flattened
  range of \<open>D0 * D1 * D2 * D3 * D4\<close> coordinates among the threads with the partitioner,
  and every thread calls \<^verbatim>\<open>body(d0, d1, d2, d3, d4)\<close> on the coordinates of its range in
  row-major order. The body also learns the thread it runs on
  (\<^verbatim>\<open>parallel_get_thread_num()\<close>).
\<close>

definition parallel_for5d ::
  "nat \<Rightarrow> nat \<Rightarrow> nat \<Rightarrow> nat \<Rightarrow> nat \<Rightarrow> nat \<Rightarrow> (nat \<Rightarrow> int list \<Rightarrow> 'a) \<Rightarrow> 'a list list" where
  "parallel_for5d nthr D0 D1 D2 D3 D4 body =
     map (\<lambda>ithr. case splitter (D0 * D1 * D2 * D3 * D4) nthr ithr of (n_start, n_end) \<Rightarrow>
            map (\<lambda>iwork. body ithr (map int (mixed_radix [D0, D1, D2, D3, D4] iwork)))
              [n_start..<n_end])
       [0..<nthr]"

subsection \<open>Dispatch\<close>

text \<open>
  One invocation of the compiled kernel: the index vector it receives and, of the call
  arguments, the broadcasting scratchpad (its offset into \<^verbatim>\<open>scratchpad_memory_chunk\<close>;
  \<open>None\<close> on the static path, where the field is never set). The other call arguments
  are the same for every call of one \<^verbatim>\<open>execute\<close>.
\<close>

record kernel_call =
  call_indexes :: "int list"
  call_scratchpad :: "nat option"

text \<open>\<^verbatim>\<open>Snippet::schedule_6d\<close> reads \<^verbatim>\<open>dom[0]\<close> to \<^verbatim>\<open>dom[4]\<close>.\<close>

definition schedule_6d :: "Snippet \<Rightarrow> nat \<Rightarrow> nat option \<Rightarrow> error + kernel_call list list" where
  "schedule_6d s nthr scratchpad =
     (let edom = exec_domain s
      in if length edom < 5 then Inl OutOfRange
         else Inr (parallel_for5d nthr (edom ! 0) (edom ! 1) (edom ! 2) (edom ! 3) (edom ! 4)
                     (\<lambda>ithr indexes. \<lparr> call_indexes = indexes, call_scratchpad = scratchpad \<rparr>)))"

text \<open>
  \<^verbatim>\<open>Snippet::schedule_6d_dynamic\<close>: every thread gets a copy of the call arguments with a
  scratchpad of its own, \<^verbatim>\<open>i * scratchpad_size\<close> further on.
\<close>

definition schedule_6d_dynamic :: "Snippet \<Rightarrow> nat \<Rightarrow> nat \<Rightarrow> error + kernel_call list list" where
  "schedule_6d_dynamic s nthr scratchpad =
     (let edom = exec_domain s;
          scratchpad_size = isa_num_lanes s * inputShapes_size s;
          per_thread_call_args = map (\<lambda>i. scratchpad + i * scratchpad_size) [0..<nthr]
      in if length edom < 5 then Inl OutOfRange
         else Inr (parallel_for5d nthr (edom ! 0) (edom ! 1) (edom ! 2) (edom ! 3) (edom ! 4)
                     (\<lambda>ithr indexes. \<lparr> call_indexes = indexes,
                                        call_scratchpad = Some (per_thread_call_args ! ithr) \<rparr>)))"

text \<open>
  The inner loop of \<^verbatim>\<open>schedule_nt\<close>,
  \<^verbatim>\<open>for (ptrdiff_t j = work_size.size() - 2; j >= 0; j--)\<close>, with the loop counter one above
  the index. A remainder by an extent of 0 is undefined.
\<close>

fun index_loop :: "nat \<Rightarrow> shape \<Rightarrow> nat \<Rightarrow> int list \<Rightarrow> error + int list" where
  "index_loop 0 work_size tmp indexes = Inr indexes"
| "index_loop (Suc j) work_size tmp indexes =
     (if work_size ! j = 0 then Inl DivByZero
      else index_loop j work_size (tmp div work_size ! j)
             (indexes[j := int (tmp mod work_size ! j)]))"

text \<open>
  \<^verbatim>\<open>for (size_t iwork = start; iwork < end; ++iwork)\<close>: the index vector is declared outside
  the loop and overwritten in every iteration.
\<close>

function iwork_loop :: "shape \<Rightarrow> nat option \<Rightarrow> nat \<Rightarrow> nat \<Rightarrow> int list \<Rightarrow> error + kernel_call list" where
  "iwork_loop work_size scratchpad n_end iwork indexes =
     (if iwork < n_end
      then (case index_loop (length work_size - 1) work_size iwork indexes of
              Inl e \<Rightarrow> Inl e
            | Inr indexes' \<Rightarrow>
                (case iwork_loop work_size scratchpad n_end (Suc iwork) indexes' of
                   Inl e \<Rightarrow> Inl e
                 | Inr calls \<Rightarrow>
                     Inr (\<lparr> call_indexes = indexes', call_scratchpad = scratchpad \<rparr> # calls)))
      else Inr [])"
  by pat_completeness auto
termination
  by (relation "measure (\<lambda>(work_size, scratchpad, n_end, iwork, indexes). n_end - iwork)") auto

declare iwork_loop.simps [simp del]

text \<open>The first error among the threads, or what every thread did.\<close>

fun collect :: "(error + 'a) list \<Rightarrow> error + 'a list" where
  "collect [] = Inr []"
| "collect (Inl e # rest) = Inl e"
| "collect (Inr x # rest) = (case collect rest of Inl e \<Rightarrow> Inl e | Inr xs \<Rightarrow> Inr (x # xs))"

text \<open>\<^verbatim>\<open>Snippet::schedule_nt\<close>. \<^verbatim>\<open>work_size.size() - 1\<close> of an empty domain wraps around.\<close>

definition schedule_nt :: "Snippet \<Rightarrow> nat \<Rightarrow> nat option \<Rightarrow> error + kernel_call list list" where
  "schedule_nt s nthr scratchpad =
     (let work_size = exec_domain s
      in if work_size = [] then Inl OutOfRange
         else collect (parallel_nt nthr (\<lambda>ithr nthr.
                case splitter (harnessWorkAmount s) nthr ithr of (n_start, n_end) \<Rightarrow>
                  iwork_loop work_size scratchpad n_end n_start
                    (replicate (length work_size - 1) 0))))"

text \<open>
  What one \<^verbatim>\<open>execute\<close> does: the exception it throws, if any; the kernel calls made, per
  thread; the size of the scratchpad afterwards.
\<close>

record exec_result =
  exec_error :: "error option"
  exec_calls :: "kernel_call list list"
  exec_scratchpad_size :: nat

definition dispatched :: "nat \<Rightarrow> error + kernel_call list list \<Rightarrow> exec_result" where
  "dispatched scratchpad_size r =
     (case r of
        Inl e \<Rightarrow> \<lparr> exec_error = Some e, exec_calls = [], exec_scratchpad_size = scratchpad_size \<rparr>
      | Inr calls \<Rightarrow> \<lparr> exec_error = None, exec_calls = calls, exec_scratchpad_size = scratchpad_size \<rparr>)"

text \<open>
  \<^verbatim>\<open>Snippet::execute\<close>; \<open>nthr\<close> is the number of threads of the pool. Undefined behaviour
  inside a dispatch (\<open>OutOfRange\<close>, \<open>DivByZero\<close>) is reported as the error without the calls
  made before it: nothing is claimed about such a run. The exceptions of \<^verbatim>\<open>execute\<close> itself
  are \<open>IEThrow\<close>.
\<close>

definition execute :: "Snippet \<Rightarrow> nat \<Rightarrow> exec_result" where
  "execute s nthr =
     (if \<not> schedule_ptr_nonnull s \<or> \<not> canUseOptimizedImpl s
      then \<lparr> exec_error = Some IEThrow, exec_calls = [],
             exec_scratchpad_size = scratchpad_memory_chunk_size s \<rparr>
      else if isDynamic s
      then
        let chunk = (if scratchpad_memory_chunk_size s = 0
                     then nthr * isa_num_lanes s * inputShapes_size s
                     else scratchpad_memory_chunk_size s)
        in if tensorRank s \<noteq> rank6D
           then \<lparr> exec_error = Some IEThrow, exec_calls = [], exec_scratchpad_size = chunk \<rparr>
           else if list_ex (\<lambda>x. x) (broadcasting_mask s)
           then dispatched chunk (schedule_6d_dynamic s nthr 0)
           else dispatched chunk (schedule_6d s nthr (Some 0))
      else if tensorRank s = rank6D
      then dispatched (scratchpad_memory_chunk_size s) (schedule_6d s nthr None)
      else dispatched (scratchpad_memory_chunk_size s) (schedule_nt s nthr None))"

text \<open>
  The harness coordinates of an execution domain: one index per dimension but the
  innermost, each below its extent.
\<close>

definition harness_coordinate :: "shape \<Rightarrow> int list \<Rightarrow> bool" where
  "harness_coordinate edom idx = list_all2 (\<lambda>x d. 0 \<le> x \<and> x < int d) idx (butlast edom)"

text \<open>The call the flat strategy makes for the linear index \<open>i\<close> over the harness extents \<open>ds\<close>.\<close>

definition nt_call :: "shape \<Rightarrow> nat option \<Rightarrow> nat \<Rightarrow> kernel_call" where
  "nt_call ds sc i = \<lparr> call_indexes = map int (mixed_radix ds i), call_scratchpad = sc \<rparr>"

text \<open>The linear indices thread \<open>tid\<close> of \<open>team\<close> gets from the partitioner.\<close>

definition thread_range :: "nat \<Rightarrow> nat \<Rightarrow> nat \<Rightarrow> nat list" where
  "thread_range n team tid = [fst (splitter n team tid)..<snd (splitter n team tid)]"

text \<open>The index vectors of all kernel calls, thread after thread.\<close>

definition visited :: "kernel_call list list \<Rightarrow> int list list" where
  "visited threads = map call_indexes (concat threads)"

text \<open>The linear index of a list of mixed-radix digits, innermost digit first.\<close>

fun unradix_rev :: "nat list \<Rightarrow> nat list \<Rightarrow> nat" where
  "unradix_rev (d # ds) (x # xs) = x + d * unradix_rev ds xs"
| "unradix_rev ds xs = 0"

text \<open>
  What \<^verbatim>\<open>prepareParams\<close> and \<^verbatim>\<open>generate\<close> leave for \<^verbatim>\<open>execute\<close> when nothing has gone wrong: a
  compiled kernel that may be used, an execution domain of the tensor rank,
  \<^verbatim>\<open>harnessWorkAmount\<close> the number of harness coordinates, and rank 6 on the dynamic path.
\<close>

definition dispatch_ready :: "Snippet \<Rightarrow> bool" where
  "dispatch_ready s =
     (schedule_ptr_nonnull s \<and> canUseOptimizedImpl s \<and> exec_domain s \<noteq> [] \<and>
      length (exec_domain s) = tensorRank s \<and>
      harnessWorkAmount s = prod_list (butlast (exec_domain s)) \<and>
      (isDynamic s \<longrightarrow> tensorRank s = rank6D))"

text \<open>
  What one \<^verbatim>\<open>execute\<close> on \<open>nthr\<close> threads comes to: the exception, the number of kernel
  calls, and the index vectors called, each listed once.
\<close>

definition dispatch_summary :: "nat \<Rightarrow> Snippet \<Rightarrow> error option \<times> nat \<times> int list list" where
  "dispatch_summary nthr s =
     (let r = execute s nthr
      in (exec_error r, length (visited (exec_calls r)), remdups (visited (exec_calls r))))"

subsection \<open>Operands and well-formed states\<close>

text \<open>Operand \<open>i\<close> of the node: the inputs first, then the outputs
  (\<^verbatim>\<open>i < numInputs ? inputShapes[i] : outputShapes[i - numInputs]\<close>).\<close>

definition operand :: "Snippet \<Rightarrow> nat \<Rightarrow> shape" where
  "operand s i = (normInputShapes s @ normOutputShapes s) ! i"

definition numParams :: "Snippet \<Rightarrow> nat" where
  "numParams s = length (normInputShapes s) + length (normOutputShapes s)"

text \<open>What \<^verbatim>\<open>normalizeShapes\<close> establishes: the master shape is not empty and every
  normalised operand shape has the rank of the master shape.\<close>

definition shapes_wf :: "Snippet \<Rightarrow> bool" where
  "shapes_wf s = (masterShape s \<noteq> [] \<and>
     list_all (\<lambda>ps. length ps = length (masterShape s)) (normInputShapes s @ normOutputShapes s))"

text \<open>The value \<^verbatim>\<open>offset_calculation\<close> stores for dimension \<open>d\<close> of an operand, before the
  zeroing pass and the scaling by the element size.\<close>

definition offset_entry :: "shape \<Rightarrow> shape \<Rightarrow> nat \<Rightarrow> nat" where
  "offset_entry m dims d = (if dims ! d = m ! d then prod_list (drop (Suc d) dims) else 0)"

text \<open>The branch of the input loop of the scheduler offsets, as a function of the index and
  of the value the entry held before.\<close>

definition sch_input_entry :: "Snippet \<Rightarrow> nat \<Rightarrow> int list \<Rightarrow> bool list \<Rightarrow> nat \<Rightarrow> int \<Rightarrow> int" where
  "sch_input_entry s R offs bm i x =
     (if offs ! ((i + 1) * R - 1) > int (dataSize s) then 0
      else if offs ! ((i + 1) * R - 1) = int (dataSize s) then (if bm ! i then int (dataSize s) else 0)
      else if (normInputShapes s ! i) ! (length (normInputShapes s ! i) - 2)
                \<noteq> masterShape s ! (length (masterShape s) - 2)
              \<and> last (normInputShapes s ! i) \<noteq> 1
           then - int (masterShape s ! (length (masterShape s) - 1) * dataSize s)
      else x)"

subsection \<open>Example states\<close>

text \<open>
  A dynamic node with two inputs and one output, as \<^verbatim>\<open>prepareParams\<close> leaves it for a tile of
  rank 2: the first input is broadcast on the innermost dimension, the second on the
  outer dimension of the tile.
\<close>

definition ex_tile2 :: Snippet where
  "ex_tile2 = \<lparr> isDynamic = True, isa_num_lanes = 8, dataSize = 4, inputShapes_size = 2,
     masterShape = [1, 1, 1, 16, 4, 8],
     normInputShapes = [[1, 1, 1, 16, 4, 1], [1, 1, 1, 16, 1, 8]],
     normOutputShapes = [[1, 1, 1, 16, 4, 8]],
     originalNormOutputShapes = [[1, 1, 1, 16, 4, 8]], tensorRank = 6, tileRank = 2,
     fullWorkAmount = 512, harnessWorkAmount = 16, exec_domain = [1, 1, 1, 16, 1, 1],
     data_offsets = [], scheduler_offsets = [], scheduler_work_amounts = [4, 8],
     broadcasting_mask = [], vector_tile_increments = [], scalar_tile_increments = [],
     schedule_ptr_nonnull = True, canUseOptimizedImpl = True, scratchpad_memory_chunk_size = 0 \<rparr>"

text \<open>
  The same node on shapes whose extent on the outer dimension of the tile is 1: the one
  input has the master shape, the optimizer cannot fold it (it broadcasts on exactly one
  of its two trailing dimensions) and raises the tile rank to 2.
\<close>

definition ex_outer1 :: Snippet where
  "ex_outer1 = \<lparr> isDynamic = True, isa_num_lanes = 8, dataSize = 4, inputShapes_size = 1,
     masterShape = [1, 1, 1, 16, 1, 8],
     normInputShapes = [[1, 1, 1, 16, 1, 8]],
     normOutputShapes = [[1, 1, 1, 16, 1, 8]],
     originalNormOutputShapes = [[1, 1, 1, 16, 1, 8]], tensorRank = 6, tileRank = 2,
     fullWorkAmount = 128, harnessWorkAmount = 16, exec_domain = [1, 1, 1, 16, 1, 1],
     data_offsets = [], scheduler_offsets = [], scheduler_work_amounts = [1, 8],
     broadcasting_mask = [], vector_tile_increments = [], scalar_tile_increments = [],
     schedule_ptr_nonnull = True, canUseOptimizedImpl = True, scratchpad_memory_chunk_size = 0 \<rparr>"

definition ex_params0 :: jit_params where
  "ex_params0 = \<lparr> offsets = [], sch_offsets = [], bmask = [], vector_tile_inc = [], scalar_tile_inc = [] \<rparr>"

text \<open>A static node of tensor rank 7, dispatched by the flat strategy.\<close>

definition ex_static7 :: Snippet where
  "ex_static7 = \<lparr> isDynamic = False, isa_num_lanes = 8, dataSize = 4, inputShapes_size = 1,
     masterShape = [1, 1, 1, 1, 2, 3, 5],
     normInputShapes = [[1, 1, 1, 1, 2, 3, 5]], normOutputShapes = [[1, 1, 1, 1, 2, 3, 5]],
     originalNormOutputShapes = [[1, 1, 1, 1, 2, 3, 5]], tensorRank = 7, tileRank = 1,
     fullWorkAmount = 30, harnessWorkAmount = 6, exec_domain = [1, 1, 1, 1, 2, 3, 1],
     data_offsets = [], scheduler_offsets = [], scheduler_work_amounts = [1, 5],
     broadcasting_mask = [], vector_tile_increments = [], scalar_tile_increments = [],
     schedule_ptr_nonnull = True, canUseOptimizedImpl = True, scratchpad_memory_chunk_size = 0 \<rparr>"

text \<open>
  A static node of tensor rank 7 as \<^verbatim>\<open>normalizeShapes\<close> leaves it, on a tensor of
  \<open>16777216 * 128 = 2 ^ 31\<close> elements.
\<close>

definition ex_big7 :: Snippet where
  "ex_big7 = \<lparr> isDynamic = False, isa_num_lanes = 8, dataSize = 4, inputShapes_size = 1,
     masterShape = [1, 1, 1, 1, 1, 16777216, 128],
     normInputShapes = [[1, 1, 1, 1, 1, 16777216, 128]], normOutputShapes = [],
     originalNormOutputShapes = [[1, 1, 1, 1, 1, 16777216, 128]], tensorRank = 7, tileRank = 1,
     fullWorkAmount = 0, harnessWorkAmount = 0, exec_domain = [],
     data_offsets = [], scheduler_offsets = [], scheduler_work_amounts = [],
     broadcasting_mask = [], vector_tile_increments = [], scalar_tile_increments = [],
     schedule_ptr_nonnull = False, canUseOptimizedImpl = True, scratchpad_memory_chunk_size = 0 \<rparr>"

text \<open>
  A dynamic node before its first inference, and the shapes of two inferences: the first
  needs a tile of rank 2, the second is a plain vector of 512 elements.
\<close>

definition ex_fresh :: Snippet where
  "ex_fresh = \<lparr> isDynamic = True, isa_num_lanes = 8, dataSize = 4, inputShapes_size = 2,
     masterShape = [], normInputShapes = [], normOutputShapes = [],
     originalNormOutputShapes = [], tensorRank = 6, tileRank = 1,
     fullWorkAmount = 0, harnessWorkAmount = 0, exec_domain = [],
     data_offsets = [], scheduler_offsets = [], scheduler_work_amounts = [],
     broadcasting_mask = [], vector_tile_increments = [], scalar_tile_increments = [],
     schedule_ptr_nonnull = True, canUseOptimizedImpl = True, scratchpad_memory_chunk_size = 0 \<rparr>"

definition ex_live1 :: "shape \<times> shape list \<times> shape list" where
  "ex_live1 = ([1, 1, 1, 16, 4, 8], [[1, 1, 1, 16, 4, 1], [1, 1, 1, 16, 1, 8]], [[1, 1, 1, 16, 4, 8]])"

definition ex_live2 :: "shape \<times> shape list \<times> shape list" where
  "ex_live2 = ([1, 1, 1, 1, 1, 512], [[1, 1, 1, 1, 1, 512], [1, 1, 1, 1, 1, 512]], [[1, 1, 1, 1, 1, 512]])"

text \<open>The scheduling members \<^verbatim>\<open>prepareParams\<close> computes in its last lines.\<close>

definition scheduling_summary :: "Snippet \<Rightarrow> nat \<times> nat list \<times> nat \<times> shape \<times> shape" where
  "scheduling_summary s =
     (tileRank s, scheduler_work_amounts s, harnessWorkAmount s, exec_domain s, masterShape s)"

text \<open>Two inferences one after the other, as the dynamic path runs them.\<close>

definition prepare_twice :: "error + Snippet" where
  "prepare_twice =
     (case prepareParams ex_fresh 4 ex_live1 4 of
        Inl e \<Rightarrow> Inl e
      | Inr s1 \<Rightarrow> prepareParams s1 4 ex_live2 4)"

section \<open>Properties\<close>

subsection \<open>prependWithOnes\<close>

lemma prependWithOnes_eq:
  "prependWithOnes dims rank = replicate (rank - length dims) 1 @ dims"
  by (simp add: prependWithOnes_def std_copy_def)

text \<open>
  Claim C9, as stated, fails: the result does not have rank \<open>targetRank\<close> for every shape
  and every \<open>targetRank\<close>. A shape of rank 3 normalised to rank 2 is returned as it is
  (the guard \<^verbatim>\<open>if (rank <= dims.size()) return dims;\<close>).
\<close>

theorem C9_prependWithOnes_rank_counterexample:
  "prependWithOnes [2, 3, 4] 2 = [2, 3, 4] \<and> length (prependWithOnes [2, 3, 4] 2) \<noteq> 2"
  by (simp add: prependWithOnes_def)

text \<open>
  Claim C9, amended: the result has rank \<open>max targetRank (rank of the shape)\<close>, that is
  \<open>targetRank\<close> whenever \<open>targetRank\<close> is at least the rank of the shape; its trailing
  dimensions are the shape's dimensions in order, and every prepended leading dimension
  is 1. A shape whose rank already exceeds \<open>targetRank\<close> is returned unchanged (nothing is
  prepended).
\<close>

theorem C9_prependWithOnes_amended:
  "length (prependWithOnes dims rank) = max rank (length dims) \<and>
   drop (length (prependWithOnes dims rank) - length dims) (prependWithOnes dims rank) = dims \<and>
   take (length (prependWithOnes dims rank) - length dims) (prependWithOnes dims rank)
     = replicate (max rank (length dims) - length dims) 1"
  by (auto simp add: prependWithOnes_eq max_def)

subsection \<open>calcJITParams: the loops\<close>

lemma fill_bmask_fst: "fst (fill_bmask m shapes io bm) = io + length shapes"
  by (induction shapes arbitrary: io bm) auto

lemma fill_bmask_length: "length (snd (fill_bmask m shapes io bm)) = length bm"
  by (induction shapes arbitrary: io bm) auto

lemma fill_bmask_nth:
  "io + length shapes \<le> length bm \<Longrightarrow> j < length bm \<Longrightarrow>
   snd (fill_bmask m shapes io bm) ! j =
     (if io \<le> j \<and> j < io + length shapes
      then (last m \<noteq> 1 \<and> last (shapes ! (j - io)) = 1) else bm ! j)"
proof (induction shapes arbitrary: io bm)
  case Nil
  then show ?case by auto
next
  case (Cons ps rest)
  have "snd (fill_bmask m (ps # rest) io bm) ! j
        = snd (fill_bmask m rest (Suc io) (bm[io := (last m \<noteq> 1 \<and> last ps = 1)])) ! j"
    by simp
  also have "\<dots> = (if Suc io \<le> j \<and> j < Suc io + length rest
      then (last m \<noteq> 1 \<and> last (rest ! (j - Suc io)) = 1)
      else bm[io := (last m \<noteq> 1 \<and> last ps = 1)] ! j)"
    using Cons.prems by (intro Cons.IH) auto
  also have "\<dots> = (if io \<le> j \<and> j < io + length (ps # rest)
      then (last m \<noteq> 1 \<and> last ((ps # rest) ! (j - io)) = 1) else bm ! j)"
    using Cons.prems by (cases "j = io") (auto simp: nth_Cons' Suc_diff_le)
  finally show ?case .
qed

lemma fold_update_length:
  "length (fold (\<lambda>i v. v[i := h i (v ! i)]) is v) = length v"
  by (induction "is" arbitrary: v) auto

lemma fold_update_nth:
  "n \<le> length v \<Longrightarrow> j < length v \<Longrightarrow>
   fold (\<lambda>i v. v[i := h i (v ! i)]) [0..<n] v ! j = (if j < n then h j (v ! j) else v ! j)"
proof (induction n)
  case 0
  then show ?case by simp
next
  case (Suc n)
  then show ?case
    by (auto simp: fold_update_length nth_list_update)
qed

lemma ocl_length: "length (offset_calculation_loop m base dims i k off) = length off"
  by (induction i arbitrary: k off) (auto simp: Let_def)

lemma ocl_nth:
  "base + i \<le> length off \<Longrightarrow> j < length off \<Longrightarrow> i \<le> length dims \<Longrightarrow>
   offset_calculation_loop m base dims i k off ! j =
     (if base \<le> j \<and> j < base + i
      then int (if dims ! (j - base) = m ! (j - base)
                then k * prod_list (take (i - 1 - (j - base)) (drop (Suc (j - base)) dims)) else 0)
      else off ! j)"
proof (induction i arbitrary: k off)
  case 0
  then show ?case by simp
next
  case (Suc i)
  let ?tmp = "if dims ! i = m ! i then k else 0"
  let ?off = "off[base + i := int ?tmp]"
  have step: "offset_calculation_loop m base dims (Suc i) k off ! j
        = offset_calculation_loop m base dims i (k * dims ! i) ?off ! j"
    by (simp add: Let_def)
  have IH: "offset_calculation_loop m base dims i (k * dims ! i) ?off ! j =
     (if base \<le> j \<and> j < base + i
      then int (if dims ! (j - base) = m ! (j - base)
                then (k * dims ! i) * prod_list (take (i - 1 - (j - base)) (drop (Suc (j - base)) dims)) else 0)
      else ?off ! j)"
    using Suc.prems by (intro Suc.IH) auto
  show ?case
  proof (cases "base \<le> j \<and> j < base + i")
    case True
    define d where "d = j - base"
    have d: "d < i" "i < length dims" using True Suc.prems by (auto simp: d_def)
    have "take (Suc i - 1 - d) (drop (Suc d) dims) = take (i - 1 - d) (drop (Suc d) dims) @ [dims ! i]"
    proof -
      have "Suc i - 1 - d = Suc (i - 1 - d)" using d by simp
      moreover have "i - 1 - d < length (drop (Suc d) dims)" using d by simp
      moreover have "drop (Suc d) dims ! (i - 1 - d) = dims ! i" using d by simp
      ultimately show ?thesis by (simp add: take_Suc_conv_app_nth)
    qed
    then show ?thesis using True step IH by (simp add: d_def ac_simps)
  next
    case False
    then show ?thesis using step IH Suc.prems by (auto simp: nth_list_update)
  qed
qed

lemma offset_calculation_length:
  "length (offset_calculation m R base dims off) = length off"
  by (simp add: offset_calculation_def ocl_length)

lemma offset_calculation_nth:
  assumes "base + R \<le> length off" "j < length off" "length dims = Suc R"
  shows "offset_calculation m R base dims off ! j =
     (if base \<le> j \<and> j < base + R then int (offset_entry m dims (j - base)) else off ! j)"
proof (cases "base \<le> j \<and> j < base + R")
  case False
  then show ?thesis using assms by (auto simp: offset_calculation_def ocl_nth)
next
  case True
  define d where "d = j - base"
  have d: "d < R" using True by (auto simp: d_def)
  have dims: "dims \<noteq> []" using assms by auto
  have "drop (Suc d) dims = take (R - 1 - d) (drop (Suc d) dims) @ [last dims]"
  proof -
    have "length (drop (Suc d) dims) = Suc (R - 1 - d)" using d assms by simp
    then have "drop (Suc d) dims = butlast (drop (Suc d) dims) @ [last (drop (Suc d) dims)]"
      by (metis append_butlast_last_id length_0_conv nat.distinct(1))
    moreover have "last (drop (Suc d) dims) = last dims" using d assms by simp
    moreover have "butlast (drop (Suc d) dims) = take (R - 1 - d) (drop (Suc d) dims)"
      using d assms by (simp add: butlast_conv_take)
    ultimately show ?thesis by simp
  qed
  then have "prod_list (drop (Suc d) dims) = last dims * prod_list (take (R - 1 - d) (drop (Suc d) dims))"
    by (metis mult.commute prod_list.append prod_list.Cons prod_list.Nil mult.right_neutral)
  then show ?thesis
    using True assms by (simp add: offset_calculation_def ocl_nth offset_entry_def d_def)
qed

lemma params_loop_length:
  "length (fold (\<lambda>i off. offset_calculation m R (i * R) (sh i) off) is off0) = length off0"
  by (induction "is" arbitrary: off0) (auto simp: offset_calculation_length)

lemma params_loop_nth:
  assumes "N * R \<le> length off0" "\<forall>i<N. length (sh i) = Suc R" "p < N" "d < R"
  shows "fold (\<lambda>i off. offset_calculation m R (i * R) (sh i) off) [0..<N] off0 ! (p * R + d)
         = int (offset_entry m (sh p) d)"
  using assms
proof (induction N)
  case 0
  then show ?case by simp
next
  case (Suc N)
  let ?prev = "fold (\<lambda>i off. offset_calculation m R (i * R) (sh i) off) [0..<N] off0"
  have len: "length ?prev = length off0" by (rule params_loop_length)
  have bound: "N * R + R \<le> length off0" using Suc.prems by simp
  have "p * R + d < Suc N * R"
  proof -
    have "p * R + d < p * R + R" using Suc.prems by simp
    also have "\<dots> = Suc p * R" by simp
    also have "\<dots> \<le> Suc N * R" using Suc.prems by (intro mult_le_mono1) simp
    finally show ?thesis .
  qed
  then have j: "p * R + d < length off0" using Suc.prems by simp
  have step: "fold (\<lambda>i off. offset_calculation m R (i * R) (sh i) off) [0..<Suc N] off0 ! (p * R + d)
      = offset_calculation m R (N * R) (sh N) ?prev ! (p * R + d)"
    by simp
  also have "\<dots> = (if N * R \<le> p * R + d \<and> p * R + d < N * R + R
        then int (offset_entry m (sh N) (p * R + d - N * R)) else ?prev ! (p * R + d))"
    using bound j Suc.prems by (intro offset_calculation_nth) (auto simp: len)
  finally have eq: "fold (\<lambda>i off. offset_calculation m R (i * R) (sh i) off) [0..<Suc N] off0 ! (p * R + d)
      = (if N * R \<le> p * R + d \<and> p * R + d < N * R + R
        then int (offset_entry m (sh N) (p * R + d - N * R)) else ?prev ! (p * R + d))" .
  show ?case
  proof (cases "p = N")
    case True
    then show ?thesis using eq Suc.prems by simp
  next
    case False
    then have pN: "p < N" using Suc.prems by simp
    have "p * R + d < p * R + R" using Suc.prems by simp
    also have "\<dots> = Suc p * R" by simp
    also have "\<dots> \<le> N * R" using pN by (intro mult_le_mono1) simp
    finally have "p * R + d < N * R" .
    then have "fold (\<lambda>i off. offset_calculation m R (i * R) (sh i) off) [0..<Suc N] off0 ! (p * R + d)
       = ?prev ! (p * R + d)" using eq by simp
    also have "\<dots> = int (offset_entry m (sh p) d)"
      using Suc.prems pN by (intro Suc.IH) auto
    finally show ?thesis .
  qed
qed

lemma zero_out_loop_length: "length (zero_out_loop step bound j off) = length off"
  by (induction step bound j off rule: zero_out_loop.induct)
     (subst zero_out_loop.simps, simp)

lemma zero_out_loop_nth:
  "k < length off \<Longrightarrow>
   zero_out_loop step bound j off ! k =
     (if j \<le> k \<and> k < bound \<and> 0 < step \<and> (k - j) mod step = 0 then 0 else off ! k)"
proof (induction step bound j off rule: zero_out_loop.induct)
  case (1 step bound j off)
  show ?case
  proof (cases "j < bound \<and> 0 < step")
    case False
    then show ?thesis by (subst zero_out_loop.simps) auto
  next
    case True
    have "zero_out_loop step bound j off ! k = zero_out_loop step bound (j + step) (off[j := 0]) ! k"
      using True by (subst zero_out_loop.simps) simp
    also have "\<dots> = (if j + step \<le> k \<and> k < bound \<and> 0 < step \<and> (k - (j + step)) mod step = 0
                       then 0 else off[j := 0] ! k)"
      using True "1.prems" by (intro "1.IH") auto
    also have "\<dots> = (if j \<le> k \<and> k < bound \<and> 0 < step \<and> (k - j) mod step = 0 then 0 else off ! k)"
    proof (cases "k = j")
      case True
      then show ?thesis using \<open>j < bound \<and> 0 < step\<close> "1.prems" by simp
    next
      case False
      show ?thesis
      proof (cases "j + step \<le> k")
        case True
        then have "(k - j) mod step = (k - (j + step)) mod step"
          by (metis add.commute diff_diff_left le_mod_geq add_leD2 le_diff_conv2 add_leD1)
        then show ?thesis using True False by auto
      next
        case F2: False
        then have "j \<le> k \<Longrightarrow> \<not> step dvd (k - j)"
          using False by (intro nat_dvd_not_less) auto
        then show ?thesis using F2 False by (auto simp: mod_eq_0_iff_dvd)
      qed
    qed
    finally show ?thesis .
  qed
qed

lemma row_index_less: "p < N \<Longrightarrow> d < R \<Longrightarrow> p * R + d < N * (R::nat)"
proof -
  assume a: "p < N" "d < R"
  have "p * R + d < p * R + R" using a by simp
  also have "\<dots> = Suc p * R" by simp
  also have "\<dots> \<le> N * R" using a by (intro mult_le_mono1) simp
  finally show ?thesis .
qed

lemma column_hit:
  assumes "i < R" "d < (R::nat)"
  shows "(i \<le> p * R + d \<and> (p * R + d - i) mod R = 0) = (d = i)"
proof (cases "d = i")
  case True
  then show ?thesis by simp
next
  case False
  have "\<not> (i \<le> p * R + d \<and> (p * R + d - i) mod R = 0)"
  proof (cases "i \<le> d")
    case True
    then have "p * R + d - i = p * R + (d - i)" by simp
    then have "(p * R + d - i) mod R = (d - i) mod R" by simp
    also have "\<dots> = d - i" using assms by simp
    finally show ?thesis using False True by simp
  next
    case F: False
    show ?thesis
    proof
      assume h: "i \<le> p * R + d \<and> (p * R + d - i) mod R = 0"
      have "p \<noteq> 0" using h F by (cases p) auto
      then obtain q where q: "p = Suc q" by (cases p) auto
      have "p * R + d - i = q * R + (R + d - i)" using q F assms by (simp add: algebra_simps)
      then have "(p * R + d - i) mod R = (R + d - i) mod R" by simp
      also have "\<dots> = R + d - i" using F assms by simp
      finally show False using h F assms by simp
    qed
  qed
  then show ?thesis using False by simp
qed

lemma zero_out_column_nth:
  assumes "N * R \<le> length off" "p < N" "d < R" "i < R"
  shows "zero_out_loop R (N * R) i off ! (p * R + d) = (if d = i then 0 else off ! (p * R + d))"
proof -
  have lt: "p * R + d < N * R" using assms by (intro row_index_less)
  then have "p * R + d < length off" using assms by simp
  then have "zero_out_loop R (N * R) i off ! (p * R + d) =
     (if i \<le> p * R + d \<and> p * R + d < N * R \<and> 0 < R \<and> (p * R + d - i) mod R = 0
      then 0 else off ! (p * R + d))"
    by (rule zero_out_loop_nth)
  moreover have "(i \<le> p * R + d \<and> (p * R + d - i) mod R = 0) = (d = i)"
    using assms by (intro column_hit)
  moreover have "0 < R" using assms by simp
  ultimately show ?thesis using lt by auto
qed

lemma zero_fold_length:
  "length (fold (\<lambda>i off. if c i then zero_out_loop R B i off else off) is off) = length off"
  by (induction "is" arbitrary: off) (auto simp: zero_out_loop_length)

lemma zero_fold_nth:
  assumes "N * R \<le> length off" "p < N" "d < R" "n \<le> R"
  shows "fold (\<lambda>i off. if c i then zero_out_loop R (N * R) i off else off) [0..<n] off
           ! (p * R + d)
         = (if d < n \<and> c d then 0 else off ! (p * R + d))"
  using assms(4)
proof (induction n)
  case 0
  then show ?case by simp
next
  case (Suc n)
  let ?prev = "fold (\<lambda>i off. if c i then zero_out_loop R (N * R) i off else off) [0..<n] off"
  have len: "N * R \<le> length ?prev" using assms by (simp add: zero_fold_length)
  have IH: "?prev ! (p * R + d) = (if d < n \<and> c d then 0 else off ! (p * R + d))"
    using Suc by simp
  have n: "n < R" using Suc.prems by simp
  show ?case
  proof (cases "c n")
    case True
    have "zero_out_loop R (N * R) n ?prev ! (p * R + d) = (if d = n then 0 else ?prev ! (p * R + d))"
      using len assms n by (intro zero_out_column_nth)
    then show ?thesis using True IH by (auto simp: less_Suc_eq)
  next
    case False
    then show ?thesis using IH by (auto simp: less_Suc_eq)
  qed
qed

lemma shapes_wf_operand:
  "shapes_wf s \<Longrightarrow> i < numParams s \<Longrightarrow> length (operand s i) = length (masterShape s)"
  by (simp add: shapes_wf_def numParams_def operand_def list_all_length)

lemma operand_eq:
  "(if i < length (normInputShapes s) then normInputShapes s ! i
    else normOutputShapes s ! (i - length (normInputShapes s))) = operand s i"
  by (simp add: operand_def nth_append)

lemma calcJITParams_offsets_eq:
  "offsets (calcJITParams s p) =
     map (\<lambda>d. d * int (dataSize s))
       (fold (\<lambda>i off. if masterShape s ! i = 1
                       then zero_out_loop (length (masterShape s) - 1)
                              (numParams s * (length (masterShape s) - 1)) i off else off)
          [0..<length (masterShape s) - 1]
          (fold (\<lambda>i off. offset_calculation (masterShape s) (length (masterShape s) - 1)
                            (i * (length (masterShape s) - 1)) (operand s i) off)
             [0..<numParams s]
             (resize (numParams s * (length (masterShape s) - 1)) 1 (offsets p))))"
  by (simp add: calcJITParams_def Let_def split_def numParams_def operand_eq cong: if_cong)

lemma resize_length: "length (resize n v xs) = n"
  by (simp add: resize_def)

lemma calcJITParams_offsets_length:
  "length (offsets (calcJITParams s p)) = numParams s * (length (masterShape s) - 1)"
  by (simp only: calcJITParams_offsets_eq length_map zero_fold_length params_loop_length resize_length)

lemma calcJITParams_offsets_nth:
  assumes wf: "shapes_wf s" and i: "i < numParams s" and d: "d < length (masterShape s) - 1"
  shows "offsets (calcJITParams s p) ! (i * (length (masterShape s) - 1) + d) =
     (if masterShape s ! d \<noteq> 1 \<and> operand s i ! d = masterShape s ! d
      then int (prod_list (drop (Suc d) (operand s i)) * dataSize s) else 0)"
proof -
  let ?R = "length (masterShape s) - 1"
  let ?N = "numParams s"
  let ?off0 = "resize (?N * ?R) 1 (offsets p)"
  let ?off1 = "fold (\<lambda>i off. offset_calculation (masterShape s) ?R (i * ?R) (operand s i) off) [0..<?N] ?off0"
  let ?off2 = "fold (\<lambda>i off. if masterShape s ! i = 1 then zero_out_loop ?R (?N * ?R) i off else off) [0..<?R] ?off1"
  have lens: "\<forall>i<?N. length (operand s i) = Suc ?R"
    using wf by (auto simp: shapes_wf_operand shapes_wf_def)
  have len0: "length ?off0 = ?N * ?R" by (rule resize_length)
  have len1: "length ?off1 = ?N * ?R" by (simp only: params_loop_length len0)
  have len2: "length ?off2 = ?N * ?R" by (simp only: zero_fold_length len1)
  have j: "i * ?R + d < ?N * ?R" using i d by (intro row_index_less)
  have e1: "?off1 ! (i * ?R + d) = int (offset_entry (masterShape s) (operand s i) d)"
    using lens i d by (intro params_loop_nth) (simp_all add: resize_length)
  have e2: "?off2 ! (i * ?R + d) = (if d < ?R \<and> masterShape s ! d = 1 then 0 else ?off1 ! (i * ?R + d))"
    using i d by (intro zero_fold_nth [where c = "\<lambda>i. masterShape s ! i = 1"])
       (simp_all add: params_loop_length resize_length)
  have "offsets (calcJITParams s p) ! (i * ?R + d) = ?off2 ! (i * ?R + d) * int (dataSize s)"
    using j by (simp add: calcJITParams_offsets_eq zero_fold_length params_loop_length resize_length)
  then show ?thesis using e1 e2 d by (simp add: offset_entry_def)
qed

lemma calcJITParams_bmask_eq:
  "bmask (calcJITParams s p) =
     snd (fill_bmask (masterShape s) (normOutputShapes s) (length (normInputShapes s))
           (snd (fill_bmask (masterShape s) (normInputShapes s) 0
                  (resize (numParams s) False (bmask p)))))"
  by (simp add: calcJITParams_def Let_def split_def numParams_def fill_bmask_fst)

lemma calcJITParams_bmask_length:
  "length (bmask (calcJITParams s p)) = numParams s"
  by (simp only: calcJITParams_bmask_eq fill_bmask_length resize_length)

lemma calcJITParams_bmask_nth:
  assumes "i < numParams s"
  shows "bmask (calcJITParams s p) ! i = (last (masterShape s) \<noteq> 1 \<and> last (operand s i) = 1)"
proof -
  let ?bm0 = "resize (numParams s) False (bmask p)"
  let ?bm1 = "snd (fill_bmask (masterShape s) (normInputShapes s) 0 ?bm0)"
  have l0: "length ?bm0 = numParams s" by (rule resize_length)
  have l1: "length ?bm1 = numParams s" by (simp only: fill_bmask_length l0)
  have a: "?bm1 ! i = (if 0 \<le> i \<and> i < 0 + length (normInputShapes s)
      then (last (masterShape s) \<noteq> 1 \<and> last (normInputShapes s ! (i - 0)) = 1) else ?bm0 ! i)"
    using assms by (intro fill_bmask_nth) (simp_all add: resize_length numParams_def)
  have b: "bmask (calcJITParams s p) ! i =
      (if length (normInputShapes s) \<le> i \<and> i < length (normInputShapes s) + length (normOutputShapes s)
       then (last (masterShape s) \<noteq> 1 \<and> last (normOutputShapes s ! (i - length (normInputShapes s))) = 1)
       else ?bm1 ! i)"
    unfolding calcJITParams_bmask_eq using assms
    by (intro fill_bmask_nth) (simp_all add: fill_bmask_length resize_length numParams_def)
  show ?thesis
    using a b assms by (auto simp: operand_def nth_append numParams_def)
qed

lemma tile_inc_loop_eq:
  "tile_inc_loop n step bm inc = fold (\<lambda>i v. v[i := (\<lambda>i x. int (step * of_flag (\<not> bm ! i))) i (v ! i)]) [0..<n] inc"
  by (simp add: tile_inc_loop_def Let_def)

lemma tile_inc_loop_length: "length (tile_inc_loop n step bm inc) = length inc"
  unfolding tile_inc_loop_eq by (rule fold_update_length)

lemma tile_inc_loop_nth:
  "n \<le> length inc \<Longrightarrow> j < n \<Longrightarrow>
   tile_inc_loop n step bm inc ! j = (if bm ! j then 0 else int step)"
  unfolding tile_inc_loop_eq
  by (subst fold_update_nth) (auto simp: of_flag_def)

lemma calcJITParams_io_index:
  "fst (fill_bmask m outs (fst (fill_bmask m ins 0 bm0)) bm1) = length ins + length outs"
  by (simp add: fill_bmask_fst)

lemma calcJITParams_vector_tile_inc_eq:
  "isDynamic s \<Longrightarrow> vector_tile_inc (calcJITParams s p) =
     tile_inc_loop (numParams s) (isa_num_lanes s * sizeof_float) (bmask (calcJITParams s p))
       (resize (numParams s) 0 (vector_tile_inc p))"
  by (simp add: calcJITParams_def Let_def split_def numParams_def fill_bmask_fst)

lemma calcJITParams_scalar_tile_inc_eq:
  "isDynamic s \<Longrightarrow> scalar_tile_inc (calcJITParams s p) =
     tile_inc_loop (numParams s) sizeof_float (bmask (calcJITParams s p))
       (resize (numParams s) 0 (scalar_tile_inc p))"
  by (simp add: calcJITParams_def Let_def split_def numParams_def fill_bmask_fst)

lemma fold_update_shift_length:
  "length (fold (\<lambda>i v. v[i + n := g i]) is v) = length v"
  by (induction "is" arbitrary: v) auto

lemma fold_update_shift_nth:
  "n + k \<le> length v \<Longrightarrow> j < length v \<Longrightarrow>
   fold (\<lambda>i v. v[i + n := g i]) [0..<k] v ! j = (if n \<le> j \<and> j < n + k then g (j - n) else v ! j)"
proof (induction k)
  case 0
  then show ?case by auto
next
  case (Suc k)
  then show ?case
    by (auto simp: fold_update_shift_length nth_list_update)
qed

lemma sch_offsets_inputs_eq:
  "sch_offsets_inputs s R offs bm sch =
     fold (\<lambda>i v. v[i := sch_input_entry s R offs bm i (v ! i)]) [0..<length (normInputShapes s)] sch"
proof -
  have "(\<lambda>i sch.
            let off = offs ! ((i + 1) * R - 1);
                input_shape = normInputShapes s ! i;
                static_master_shape = masterShape s
            in if off > int (dataSize s) then sch[i := 0]
               else if off = int (dataSize s) then sch[i := (if bm ! i then int (dataSize s) else 0)]
               else if input_shape ! (length input_shape - 2)
                         \<noteq> static_master_shape ! (length static_master_shape - 2)
                       \<and> last input_shape \<noteq> 1
                    then sch[i := - 1 * int (static_master_shape ! (length static_master_shape - 1) * dataSize s)]
               else sch)
        = (\<lambda>i v. v[i := sch_input_entry s R offs bm i (v ! i)])"
    by (intro ext) (simp add: Let_def sch_input_entry_def)
  then show ?thesis by (simp add: sch_offsets_inputs_def)
qed

lemma sch_offsets_inputs_length: "length (sch_offsets_inputs s R offs bm sch) = length sch"
  unfolding sch_offsets_inputs_eq by (rule fold_update_length)

lemma sch_offsets_inputs_nth:
  "length (normInputShapes s) \<le> length sch \<Longrightarrow> j < length sch \<Longrightarrow>
   sch_offsets_inputs s R offs bm sch ! j =
     (if j < length (normInputShapes s) then sch_input_entry s R offs bm j (sch ! j) else sch ! j)"
  unfolding sch_offsets_inputs_eq by (rule fold_update_nth)

lemma sch_offsets_outputs_eq:
  "sch_offsets_outputs s R offs sch =
     fold (\<lambda>i v. v[i + length (normInputShapes s)
                     := (\<lambda>i. offs ! ((i + 1 + length (normInputShapes s)) * R - 1)
                                 - int (last (masterShape s) * dataSize s)) i])
       [0..<length (normOutputShapes s)] sch"
  by (simp add: sch_offsets_outputs_def Let_def)

lemma sch_offsets_outputs_nth:
  "length (normInputShapes s) + length (normOutputShapes s) \<le> length sch \<Longrightarrow> j < length sch \<Longrightarrow>
   sch_offsets_outputs s R offs sch ! j =
     (if length (normInputShapes s) \<le> j \<and> j < length (normInputShapes s) + length (normOutputShapes s)
      then offs ! ((j - length (normInputShapes s) + 1 + length (normInputShapes s)) * R - 1)
             - int (last (masterShape s) * dataSize s)
      else sch ! j)"
  unfolding sch_offsets_outputs_eq by (rule fold_update_shift_nth)

lemma calcJITParams_sch_offsets_eq:
  "sch_offsets (calcJITParams s p) =
     (if tileRank s > 1
      then sch_offsets_outputs s (length (masterShape s) - 1) (offsets (calcJITParams s p))
             (sch_offsets_inputs s (length (masterShape s) - 1) (offsets (calcJITParams s p))
                (bmask (calcJITParams s p)) (replicate (numParams s) 0))
      else replicate (numParams s) 0)"
  by (simp add: calcJITParams_def Let_def split_def numParams_def)

lemma outer_tile_offset:
  assumes wf: "shapes_wf s" and i: "i < numParams s" and n: "2 \<le> length (masterShape s)"
  shows "offsets (calcJITParams s p) ! ((i + 1) * (length (masterShape s) - 1) - 1) =
     (if masterShape s ! (length (masterShape s) - 2) \<noteq> 1
         \<and> operand s i ! (length (masterShape s) - 2) = masterShape s ! (length (masterShape s) - 2)
      then int (last (operand s i) * dataSize s) else 0)"
proof -
  let ?n = "length (masterShape s)"
  have idx: "(i + 1) * (?n - 1) - 1 = i * (?n - 1) + (?n - 2)"
    using n by (simp add: algebra_simps)
  have len: "length (operand s i) = ?n" using wf i by (rule shapes_wf_operand)
  have "drop (Suc (?n - 2)) (operand s i) = [last (operand s i)]"
  proof -
    have "Suc (?n - 2) = length (operand s i) - 1" using n len by simp
    moreover have "operand s i \<noteq> []" using n len by auto
    ultimately show ?thesis
      by (metis append_butlast_last_id append_eq_conv_conj length_butlast)
  qed
  then have pr: "prod_list (drop (Suc (?n - 2)) (operand s i)) = last (operand s i)" by simp
  have "offsets (calcJITParams s p) ! (i * (?n - 1) + (?n - 2)) =
     (if masterShape s ! (?n - 2) \<noteq> 1 \<and> operand s i ! (?n - 2) = masterShape s ! (?n - 2)
      then int (prod_list (drop (Suc (?n - 2)) (operand s i)) * dataSize s) else 0)"
    using wf i n by (intro calcJITParams_offsets_nth) auto
  then show ?thesis unfolding idx pr .
qed

lemma operand_input: "i < length (normInputShapes s) \<Longrightarrow> operand s i = normInputShapes s ! i"
  by (simp add: operand_def nth_append)

lemma operand_output:
  "operand s (length (normInputShapes s) + j) = normOutputShapes s ! j"
  by (simp add: operand_def nth_append)

subsection \<open>calcJITParams: data offsets (claim C1)\<close>

text \<open>
  Claim C1, as stated, fails. The output of \<open>ex_tile2\<close> has the master shape, so it is
  broadcast on no dimension; its outermost extent is 1 and so is the master's. The claim
  gives it the data offset "product of its inner extents times the element size" on
  dimension 0, that is 2048 bytes; the source stores 0, because the pass commented
  \<^verbatim>\<open>zero-out offsets that wouldn't be applied anyway\<close> clears every dimension on which the
  master extent is 1.
\<close>

theorem C1_data_offsets_counterexample:
  "\<not> (operand ex_tile2 2 ! 0 = 1 \<and> 1 < masterShape ex_tile2 ! 0) \<and>
   offsets (calcJITParams ex_tile2 ex_params0) ! (2 * 5 + 0) = 0 \<and>
   int (prod_list (drop (Suc 0) (operand ex_tile2 2)) * dataSize ex_tile2) = 2048"
proof -
  have "shapes_wf ex_tile2" "2 < numParams ex_tile2" "0 < length (masterShape ex_tile2) - 1"
    by (simp_all add: ex_tile2_def shapes_wf_def numParams_def)
  from calcJITParams_offsets_nth [OF this, of ex_params0]
  show ?thesis by (simp add: ex_tile2_def operand_def)
qed

text \<open>
  Claim C1, amended: for every operand \<open>i\<close> (input or output) and every dimension \<open>d\<close> but
  the innermost, the planned data offset is 0 if the master extent at \<open>d\<close> is 1 or the
  operand's extent at \<open>d\<close> differs from the master extent (for broadcast-compatible shapes:
  the operand's extent is 1 while the master extent is greater than 1); otherwise, when
  the operand's extent equals a master extent other than 1, it is the product of the
  operand's own inner extents multiplied by the element size. The offsets of operand \<open>i\<close>
  occupy the positions \<open>i * (rank - 1) + d\<close> of the flat vector.
\<close>

theorem C1_data_offsets_amended:
  assumes "shapes_wf s" and "i < numParams s" and "d < length (masterShape s) - 1"
  shows "offsets (calcJITParams s p) ! (i * (length (masterShape s) - 1) + d) =
     (if masterShape s ! d = 1 \<or> operand s i ! d \<noteq> masterShape s ! d then 0
      else int (prod_list (drop (Suc d) (operand s i)) * dataSize s))"
  using calcJITParams_offsets_nth [OF assms, of p] by auto

theorem C1_data_offsets_amended_witness:
  "shapes_wf ex_tile2 \<and> 2 < numParams ex_tile2 \<and> 3 < length (masterShape ex_tile2) - 1 \<and>
   offsets (calcJITParams ex_tile2 ex_params0) ! (2 * (length (masterShape ex_tile2) - 1) + 3) = 128 \<and>
   offsets (calcJITParams ex_tile2 ex_params0) ! (0 * (length (masterShape ex_tile2) - 1) + 4) = 4 \<and>
   offsets (calcJITParams ex_tile2 ex_params0) ! (1 * (length (masterShape ex_tile2) - 1) + 4) = 0"
proof -
  have wf: "shapes_wf ex_tile2"
    by (simp add: ex_tile2_def shapes_wf_def)
  have i: "2 < numParams ex_tile2" "0 < numParams ex_tile2" "1 < numParams ex_tile2"
    by (simp_all add: ex_tile2_def numParams_def)
  have d: "3 < length (masterShape ex_tile2) - 1" "4 < length (masterShape ex_tile2) - 1"
    by (simp_all add: ex_tile2_def)
  show ?thesis
    using wf i(1) d(1)
      C1_data_offsets_amended [OF wf i(1) d(1), of ex_params0]
      C1_data_offsets_amended [OF wf i(2) d(2), of ex_params0]
      C1_data_offsets_amended [OF wf i(3) d(2), of ex_params0]
    by (simp add: ex_tile2_def operand_def)
qed

subsection \<open>calcJITParams: tile-boundary correction (claim C6)\<close>

text \<open>
  Claim C6, as stated, fails. In \<open>ex_tile2\<close> the tile rank is 2 and the first input is
  broadcast on the inner dimension (extent 1 against the master's 8). The claim gives it
  a negative rewind of one full row, \<open>- 8 * 4 = - 32\<close> bytes; the source gives it the
  positive increment of one element, 4 bytes (\<^verbatim>\<open>increment data ptrs in outer tile if inner
  tile is broadcasted\<close>). The rewind is what the source gives an input that is broadcast on
  the outer dimension of the tile, like the second input here.
\<close>

theorem C6_scheduler_offsets_counterexample:
  "tileRank ex_tile2 = 2 \<and>
   last (normInputShapes ex_tile2 ! 0) = 1 \<and> 1 < last (masterShape ex_tile2) \<and>
   - int (last (masterShape ex_tile2) * dataSize ex_tile2) = - 32 \<and>
   sch_offsets (calcJITParams ex_tile2 ex_params0) ! 0 = 4"
proof -
  have "sch_offsets (calcJITParams ex_tile2 ex_params0) ! 0 = 4"
    by code_simp
  then show ?thesis by (simp add: ex_tile2_def)
qed

text \<open>
  Claim C6, amended: when the tile rank is 2 (greater than 1) and the element size is
  positive, the correction offset of an input is
  \<^item> a negative rewind of one full row (master innermost extent times element size) if
    the input's extent on the outer dimension of the tile differs from the master's (the
    outer tile dimension is broadcast on that input) and its innermost extent is not 1;
  \<^item> the element size if the input has the master's extent, other than 1, on the outer
    dimension of the tile and is broadcast on the innermost dimension (extent 1 against a
    master extent other than 1);
  \<^item> zero in every other case, in particular when the input's row stride advances by
    more than one element.

  The correction offset of an output is its own row width (its innermost extent times
  the element size if it has the master's extent, other than 1, on the outer dimension
  of the tile, else 0) minus the master's row width. For an output of the master shape
  this is zero when the master's extent on the outer dimension of the tile is not 1, and
  a rewind of one master row when that extent is 1 (the offset of a dimension of master
  extent 1 has been cleared): \<open>- 32\<close> bytes for the output of \<open>ex_outer1\<close>.
\<close>

theorem C6_scheduler_offsets_amended:
  assumes tr: "1 < tileRank s" and wf: "shapes_wf s" and n: "2 \<le> length (masterShape s)"
    and ds: "0 < dataSize s"
    and i: "i < length (normInputShapes s)" and j: "j < length (normOutputShapes s)"
  shows "sch_offsets (calcJITParams s p) ! i =
           (if (normInputShapes s ! i) ! (length (masterShape s) - 2)
                 \<noteq> masterShape s ! (length (masterShape s) - 2)
               \<and> last (normInputShapes s ! i) \<noteq> 1
            then - int (last (masterShape s) * dataSize s)
            else if (normInputShapes s ! i) ! (length (masterShape s) - 2)
                      = masterShape s ! (length (masterShape s) - 2)
                    \<and> masterShape s ! (length (masterShape s) - 2) \<noteq> 1
                    \<and> last (normInputShapes s ! i) = 1 \<and> last (masterShape s) \<noteq> 1
            then int (dataSize s)
            else 0)
       \<and> sch_offsets (calcJITParams s p) ! (length (normInputShapes s) + j) =
           (if masterShape s ! (length (masterShape s) - 2) \<noteq> 1
               \<and> (normOutputShapes s ! j) ! (length (masterShape s) - 2)
                   = masterShape s ! (length (masterShape s) - 2)
            then int (last (normOutputShapes s ! j) * dataSize s) else 0)
           - int (last (masterShape s) * dataSize s)"
proof -
  let ?n = "length (masterShape s)"
  let ?r = "calcJITParams s p"
  let ?ni = "length (normInputShapes s)"
  have iN: "i < numParams s" using i by (simp add: numParams_def)
  have jN: "?ni + j < numParams s" using j by (simp add: numParams_def)
  have leni: "length (normInputShapes s ! i) = ?n"
    using shapes_wf_operand [OF wf iN] i by (simp add: operand_input)
  have lastm: "masterShape s ! (?n - 1) = last (masterShape s)"
    using n by (metis last_conv_nth length_0_conv not_numeral_le_zero)
  have offi: "offsets ?r ! ((i + 1) * (?n - 1) - 1) =
     (if masterShape s ! (?n - 2) \<noteq> 1 \<and> (normInputShapes s ! i) ! (?n - 2) = masterShape s ! (?n - 2)
      then int (last (normInputShapes s ! i) * dataSize s) else 0)"
    using outer_tile_offset [OF wf iN n, of p] i by (simp add: operand_input)
  have offj: "offsets ?r ! ((?ni + j + 1) * (?n - 1) - 1) =
     (if masterShape s ! (?n - 2) \<noteq> 1 \<and> (normOutputShapes s ! j) ! (?n - 2) = masterShape s ! (?n - 2)
      then int (last (normOutputShapes s ! j) * dataSize s) else 0)"
    using outer_tile_offset [OF wf jN n, of p] by (simp add: operand_output)
  have bmi: "bmask ?r ! i = (last (masterShape s) \<noteq> 1 \<and> last (normInputShapes s ! i) = 1)"
    using calcJITParams_bmask_nth [OF iN, of p] i by (simp add: operand_input)
  have in_entry: "sch_offsets ?r ! i =
      sch_input_entry s (?n - 1) (offsets ?r) (bmask ?r) i 0"
    using tr i
    by (simp add: calcJITParams_sch_offsets_eq sch_offsets_outputs_nth sch_offsets_inputs_nth
        sch_offsets_inputs_length numParams_def)
  have out_entry: "sch_offsets ?r ! (?ni + j) =
      offsets ?r ! ((?ni + j + 1) * (?n - 1) - 1) - int (last (masterShape s) * dataSize s)"
    using tr j
    by (simp add: calcJITParams_sch_offsets_eq sch_offsets_outputs_nth sch_offsets_inputs_length
        numParams_def add.commute)
  have A: "sch_offsets ?r ! i =
           (if (normInputShapes s ! i) ! (?n - 2) \<noteq> masterShape s ! (?n - 2)
               \<and> last (normInputShapes s ! i) \<noteq> 1
            then - int (last (masterShape s) * dataSize s)
            else if (normInputShapes s ! i) ! (?n - 2) = masterShape s ! (?n - 2)
                    \<and> masterShape s ! (?n - 2) \<noteq> 1
                    \<and> last (normInputShapes s ! i) = 1 \<and> last (masterShape s) \<noteq> 1
            then int (dataSize s)
            else 0)"
    unfolding in_entry sch_input_entry_def offi bmi leni lastm
    using ds by (cases "last (normInputShapes s ! i) = 0") auto
  have B: "sch_offsets ?r ! (?ni + j) =
           (if masterShape s ! (?n - 2) \<noteq> 1
               \<and> (normOutputShapes s ! j) ! (?n - 2) = masterShape s ! (?n - 2)
            then int (last (normOutputShapes s ! j) * dataSize s) else 0)
           - int (last (masterShape s) * dataSize s)"
    unfolding out_entry offj ..
  show ?thesis using A B by (rule conjI)
qed

theorem C6_scheduler_offsets_amended_witness:
  "1 < tileRank ex_tile2 \<and> shapes_wf ex_tile2 \<and> 2 \<le> length (masterShape ex_tile2) \<and>
   0 < dataSize ex_tile2 \<and> 1 < length (normInputShapes ex_tile2) \<and>
   0 < length (normOutputShapes ex_tile2) \<and>
   sch_offsets (calcJITParams ex_tile2 ex_params0) ! 1 = - 32 \<and>
   sch_offsets (calcJITParams ex_tile2 ex_params0) ! (length (normInputShapes ex_tile2) + 0) = 0 \<and>
   1 < tileRank ex_outer1 \<and> shapes_wf ex_outer1 \<and> 2 \<le> length (masterShape ex_outer1) \<and>
   0 < dataSize ex_outer1 \<and> 0 < length (normInputShapes ex_outer1) \<and>
   0 < length (normOutputShapes ex_outer1) \<and>
   normOutputShapes ex_outer1 ! 0 = masterShape ex_outer1 \<and>
   sch_offsets (calcJITParams ex_outer1 ex_params0) ! 0 = 0 \<and>
   sch_offsets (calcJITParams ex_outer1 ex_params0) ! (length (normInputShapes ex_outer1) + 0) = - 32"
proof -
  have h: "1 < tileRank ex_tile2" "shapes_wf ex_tile2" "2 \<le> length (masterShape ex_tile2)"
    "0 < dataSize ex_tile2" "1 < length (normInputShapes ex_tile2)"
    "0 < length (normOutputShapes ex_tile2)"
    by (simp_all add: ex_tile2_def shapes_wf_def)
  have g: "1 < tileRank ex_outer1" "shapes_wf ex_outer1" "2 \<le> length (masterShape ex_outer1)"
    "0 < dataSize ex_outer1" "0 < length (normInputShapes ex_outer1)"
    "0 < length (normOutputShapes ex_outer1)"
    by (simp_all add: ex_outer1_def shapes_wf_def)
  have m: "normOutputShapes ex_outer1 ! 0 = masterShape ex_outer1"
    by (simp add: ex_outer1_def)
  have a: "sch_offsets (calcJITParams ex_tile2 ex_params0) ! 1 = - 32"
    "sch_offsets (calcJITParams ex_tile2 ex_params0) ! (length (normInputShapes ex_tile2) + 0) = 0"
    using C6_scheduler_offsets_amended [OF h, of ex_params0]
    by (simp_all add: ex_tile2_def)
  have b: "sch_offsets (calcJITParams ex_outer1 ex_params0) ! 0 = 0"
    "sch_offsets (calcJITParams ex_outer1 ex_params0) ! (length (normInputShapes ex_outer1) + 0) = - 32"
    using C6_scheduler_offsets_amended [OF g, of ex_params0]
    by (simp_all add: ex_outer1_def)
  show ?thesis using h g m a b by (intro conjI)
qed

lemma ex_outer1_tile_rank:
  "optimizeExecDomain 4 128 [[1, 1, 1, 16, 1, 8]] [[1, 1, 1, 16, 1, 8]] [1, 1, 1, 16, 1, 8] 1
     = Inr ([[1, 1, 1, 16, 1, 8]], [[1, 1, 1, 16, 1, 8]], [1, 1, 1, 16, 1, 8], 2)"
  by code_simp

subsection \<open>calcJITParams: tile increments of the dynamic case (claim C7)\<close>

text \<open>
  Claim C7: on the dynamic-shape path, \<^verbatim>\<open>calcJITParams\<close> produces for every operand (input
  or output) a vector step increment and a scalar step increment. An operand is broadcast
  when its innermost extent is 1 while the master's is not (its \<^verbatim>\<open>bmask\<close> entry). The
  vector increment is zero for a broadcast operand and element size times vector width
  (\<^verbatim>\<open>isa_num_lanes\<close>) otherwise; the scalar increment is zero for a broadcast operand and
  the element size otherwise. The element size is \<^verbatim>\<open>sizeof(float)\<close>: the node supports the
  precision FP32 only.
\<close>

theorem C7_dynamic_tile_increments:
  assumes "isDynamic s" and "shapes_wf s" and "i < numParams s"
  shows "length (vector_tile_inc (calcJITParams s p)) = numParams s \<and>
         length (scalar_tile_inc (calcJITParams s p)) = numParams s \<and>
         bmask (calcJITParams s p) ! i
           = (last (masterShape s) \<noteq> 1 \<and> last (operand s i) = 1) \<and>
         vector_tile_inc (calcJITParams s p) ! i
           = (if bmask (calcJITParams s p) ! i then 0 else int (sizeof_float * isa_num_lanes s)) \<and>
         scalar_tile_inc (calcJITParams s p) ! i
           = (if bmask (calcJITParams s p) ! i then 0 else int sizeof_float)"
  using assms
  by (simp add: calcJITParams_vector_tile_inc_eq calcJITParams_scalar_tile_inc_eq
      tile_inc_loop_length tile_inc_loop_nth resize_length calcJITParams_bmask_nth mult.commute)

theorem C7_dynamic_tile_increments_witness:
  "isDynamic ex_tile2 \<and> shapes_wf ex_tile2 \<and> 1 < numParams ex_tile2 \<and>
   \<not> bmask (calcJITParams ex_tile2 ex_params0) ! 1 \<and>
   vector_tile_inc (calcJITParams ex_tile2 ex_params0) ! 1 = 32 \<and>
   scalar_tile_inc (calcJITParams ex_tile2 ex_params0) ! 1 = 4"
proof -
  have h: "isDynamic ex_tile2" "shapes_wf ex_tile2" "1 < numParams ex_tile2"
    by (simp_all add: ex_tile2_def shapes_wf_def numParams_def)
  show ?thesis
    using h C7_dynamic_tile_increments [OF h, of ex_params0]
    by (simp add: ex_tile2_def operand_def sizeof_float_def)
qed

subsection \<open>prepareParams: the 32-bit accumulator\<close>

lemma take_bit_mult_left: "take_bit n (take_bit n a * b) = take_bit n (a * (b::int))"
proof -
  have "take_bit n (take_bit n a * b) = take_bit n (take_bit n (take_bit n a) * take_bit n b)"
    by (rule take_bit_mult [symmetric])
  also have "\<dots> = take_bit n (take_bit n a * take_bit n b)"
    by (simp only: take_bit_take_bit min.idem)
  also have "\<dots> = take_bit n (a * b)"
    by (rule take_bit_mult)
  finally show ?thesis .
qed

lemma accumulate_step:
  "to_int32 (take_bit 64 (to_size_t init * x)) = signed_take_bit 31 (init * int x)"
proof -
  have "int (take_bit 64 (nat (take_bit 64 init) * x)) = take_bit 64 (int (nat (take_bit 64 init) * x))"
    by (simp add: of_nat_take_bit)
  also have "int (nat (take_bit 64 init) * x) = take_bit 64 init * int x"
    by simp
  also have "take_bit 64 (take_bit 64 init * int x) = take_bit 64 (init * int x)"
    by (rule take_bit_mult_left)
  finally have "int (take_bit 64 (to_size_t init * x)) = take_bit 64 (init * int x)"
    by (simp add: to_size_t_def)
  then show ?thesis by (simp add: to_int32_def signed_take_bit_take_bit)
qed

lemma signed_take_bit_mult_left:
  "signed_take_bit n (signed_take_bit n a * b) = signed_take_bit n (a * (b::int))"
proof -
  have "signed_take_bit n (signed_take_bit n a * b)
        = signed_take_bit n (signed_take_bit n (signed_take_bit n a) * signed_take_bit n b)"
    by (rule signed_take_bit_mult [symmetric])
  also have "\<dots> = signed_take_bit n (signed_take_bit n a * signed_take_bit n b)"
    by (simp only: signed_take_bit_signed_take_bit min.idem)
  also have "\<dots> = signed_take_bit n (a * b)"
    by (rule signed_take_bit_mult)
  finally show ?thesis .
qed

lemma accumulate_mul_eq:
  "accumulate_mul xs init = (if xs = [] then init else signed_take_bit 31 (init * int (prod_list xs)))"
proof (induction xs arbitrary: init)
  case Nil
  then show ?case by simp
next
  case (Cons x xs)
  have "accumulate_mul (x # xs) init = accumulate_mul xs (signed_take_bit 31 (init * int x))"
    by (simp only: accumulate_mul.simps accumulate_step)
  also have "\<dots> = (if xs = [] then signed_take_bit 31 (init * int x)
                     else signed_take_bit 31 (signed_take_bit 31 (init * int x) * int (prod_list xs)))"
    by (rule Cons.IH)
  also have "signed_take_bit 31 (signed_take_bit 31 (init * int x) * int (prod_list xs))
             = signed_take_bit 31 (init * int x * int (prod_list xs))"
    by (rule signed_take_bit_mult_left)
  finally show ?case by (simp add: mult.assoc)
qed

lemma fullWorkAmount_small:
  assumes "prod_list xs < 2 ^ 31"
  shows "to_size_t (accumulate_mul xs 1) = prod_list xs"
proof (cases "xs = []")
  case True
  have "take_bit 64 (1::int) = 1" by (rule take_bit_int_eq_self) simp_all
  then show ?thesis using True by (simp add: to_size_t_def)
next
  case False
  have "int (prod_list xs) < int (2 ^ 31)" using assms by (simp only: of_nat_less_iff)
  then have i: "int (prod_list xs) < 2 ^ 31" by simp
  have nn: "0 \<le> int (prod_list xs)" by simp
  have p: "(2::int) ^ 31 \<le> 2 ^ 64" by (rule power_increasing) simp_all
  have a: "signed_take_bit 31 (int (prod_list xs)) = int (prod_list xs)"
  proof (rule signed_take_bit_int_eq_self)
    show "- (2 ^ 31) \<le> int (prod_list xs)" using nn by simp
    show "int (prod_list xs) < 2 ^ 31" by (rule i)
  qed
  have b: "take_bit 64 (int (prod_list xs)) = int (prod_list xs)"
  proof (rule take_bit_int_eq_self)
    show "0 \<le> int (prod_list xs)" by (rule nn)
    show "int (prod_list xs) < 2 ^ 64" using i p by (rule less_le_trans)
  qed
  have "accumulate_mul xs 1 = signed_take_bit 31 (1 * int (prod_list xs))"
    using False by (simp only: accumulate_mul_eq if_False)
  then have "accumulate_mul xs 1 = int (prod_list xs)" using a by simp
  then show ?thesis using b by (simp only: to_size_t_def nat_int)
qed

lemma fullWorkAmount_truncated_zero:
  "to_size_t (accumulate_mul [1, 1, 1, 1, 65536, 65536] 1) = 0"
  by (simp add: accumulate_mul_eq to_size_t_def)

lemma fullWorkAmount_truncated_negative:
  "to_size_t (accumulate_mul [1, 1, 1, 1, 65536, 32768] 1) = 18446744071562067968"
  by (simp add: accumulate_mul_eq to_size_t_def)

lemma fullWorkAmount_zero_extent:
  assumes "xs \<noteq> []" and "prod_list xs = 0"
  shows "to_size_t (accumulate_mul xs 1) = 0"
  using assms by (simp add: accumulate_mul_eq to_size_t_def)

subsection \<open>optimizeExecDomain: one fold\<close>

lemma collapse_shift_loop_nth:
  "1 \<le> c \<Longrightarrow> k \<le> length dims \<Longrightarrow> j < length dims \<Longrightarrow>
   collapse_shift_loop k c dims ! j = (if c \<le> j \<and> j < k then dims ! (j - c) else dims ! j)"
proof (induction k arbitrary: dims)
  case 0
  then show ?case by simp
next
  case (Suc i)
  show ?case
  proof (cases "c \<le> i")
    case False
    then show ?thesis by auto
  next
    case True
    let ?d = "dims[i := dims ! (i - c)]"
    have "collapse_shift_loop (Suc i) c dims ! j = collapse_shift_loop i c ?d ! j"
      using True by simp
    also have "\<dots> = (if c \<le> j \<and> j < i then ?d ! (j - c) else ?d ! j)"
      using Suc.prems by (intro Suc.IH) auto
    also have "\<dots> = (if c \<le> j \<and> j < Suc i then dims ! (j - c) else dims ! j)"
      using Suc.prems True by (auto simp: nth_list_update less_Suc_eq)
    finally show ?thesis .
  qed
qed

lemma collapse_mul_loop_one:
  assumes "3 \<le> length dims"
  shows "collapse_mul_loop (length dims - 1) (length dims - 1 - 2) dims
         = dims[length dims - 1 := dims ! (length dims - 1) * dims ! (length dims - 2)]"
proof -
  obtain m where m: "length dims = Suc (Suc (Suc m))"
    using assms by (metis Suc_le_D numeral_3_eq_3 Suc_le_mono)
  show ?thesis by (simp add: m)
qed

lemma collapseLastDims_one:
  assumes "3 \<le> length dims"
  shows "collapseLastDims dims 1 = Inr (folded dims)"
proof -
  let ?n = "length dims"
  let ?d1 = "dims[?n - 1 := dims ! (?n - 1) * dims ! (?n - 2)]"
  let ?d2 = "collapse_shift_loop (?n - 1) 1 ?d1"
  have res: "collapseLastDims dims 1 = Inr (?d2[0 := 1])"
    using assms collapse_mul_loop_one [OF assms]
    by (auto simp: collapseLastDims_def)
  have "?d2[0 := 1] = folded dims"
  proof (rule nth_equalityI)
    show "length (?d2[0 := 1]) = length (folded dims)"
      using assms by (simp add: collapse_shift_loop_length folded_def)
  next
    fix j assume "j < length (?d2[0 := 1])"
    then have j: "j < ?n" by (simp add: collapse_shift_loop_length)
    have d2: "?d2 ! j = (if 1 \<le> j \<and> j < ?n - 1 then ?d1 ! (j - 1) else ?d1 ! j)"
      using j by (intro collapse_shift_loop_nth) auto
    have ne: "dims \<noteq> []" using assms by auto
    consider "j = 0" | "1 \<le> j" "j < ?n - 1" | "j = ?n - 1" using j by linarith
    then show "?d2[0 := 1] ! j = folded dims ! j"
    proof cases
      case 1
      then show ?thesis using ne by (simp add: folded_def collapse_shift_loop_length)
    next
      case 2
      then have "?d2[0 := 1] ! j = dims ! (j - 1)"
        using d2 j by (simp add: collapse_shift_loop_length)
      moreover have "folded dims ! j = dims ! (j - 1)"
      proof -
        have jj: "j - 1 < ?n - 2" using 2 j by linarith
        have "folded dims ! j = (take (?n - 2) dims @ [dims ! (?n - 1) * dims ! (?n - 2)]) ! (j - 1)"
          using 2 by (simp add: folded_def nth_Cons')
        also have "\<dots> = take (?n - 2) dims ! (j - 1)" using jj by (simp add: nth_append)
        also have "\<dots> = dims ! (j - 1)" using jj by simp
        finally show ?thesis .
      qed
      ultimately show ?thesis by simp
    next
      case 3
      then have "?d2[0 := 1] ! j = dims ! (?n - 1) * dims ! (?n - 2)"
        using d2 assms by (simp add: collapse_shift_loop_length)
      moreover have "folded dims ! j = dims ! (?n - 1) * dims ! (?n - 2)"
      proof -
        have j1: "j = Suc (?n - 2)" using 3 assms by linarith
        have lt: "length (take (?n - 2) dims) = ?n - 2" by simp
        have "folded dims ! j = (take (?n - 2) dims @ [dims ! (?n - 1) * dims ! (?n - 2)]) ! (?n - 2)"
          unfolding j1 folded_def by simp
        also have "\<dots> = dims ! (?n - 1) * dims ! (?n - 2)"
          using nth_append_length [of "take (?n - 2) dims"] unfolding lt by simp
        finally show ?thesis .
      qed
      ultimately show ?thesis by simp
    qed
  qed
  then show ?thesis using res by simp
qed

lemma collapseLastDims_one_Inr:
  "collapseLastDims dims 1 = Inr dims' \<Longrightarrow> 3 \<le> length dims \<and> dims' = folded dims"
proof -
  assume a: "collapseLastDims dims 1 = Inr dims'"
  have "3 \<le> length dims"
    using a by (auto simp: collapseLastDims_def split: if_splits)
  then show ?thesis using a collapseLastDims_one by simp
qed

lemma split_last_two:
  assumes "2 \<le> length dims"
  shows "dims = take (length dims - 2) dims @ [dims ! (length dims - 2), dims ! (length dims - 1)]"
proof -
  let ?n = "length dims"
  have "drop (?n - 2) dims = [dims ! (?n - 2), dims ! (?n - 1)]"
  proof (rule nth_equalityI)
    show "length (drop (?n - 2) dims) = length [dims ! (?n - 2), dims ! (?n - 1)]"
      using assms by simp
  next
    fix i assume "i < length (drop (?n - 2) dims)"
    then have "i < 2" using assms by simp
    then consider "i = 0" | "i = 1" by linarith
    then show "drop (?n - 2) dims ! i = [dims ! (?n - 2), dims ! (?n - 1)] ! i"
    proof cases
      case 1 then show ?thesis using assms by simp
    next
      case 2
      have "?n - 2 + 1 = ?n - 1" using assms by simp
      then show ?thesis using 2 assms by simp
    qed
  qed
  then show ?thesis by (metis append_take_drop_id)
qed

lemma folded_length: "2 \<le> length dims \<Longrightarrow> length (folded dims) = length dims"
  by (simp add: folded_def)

lemma folded_prod: "2 \<le> length dims \<Longrightarrow> prod_list (folded dims) = prod_list dims"
proof -
  assume a: "2 \<le> length dims"
  have "prod_list dims = prod_list (take (length dims - 2) dims @ [dims ! (length dims - 2), dims ! (length dims - 1)])"
    using split_last_two [OF a] by simp
  then show ?thesis by (simp add: folded_def ac_simps)
qed

lemma folded_last: "last (folded dims) = dims ! (length dims - 1) * dims ! (length dims - 2)"
  by (simp add: folded_def)

subsection \<open>optimizeExecDomain: the loop\<close>

lemma loop_stop_not_entered:
  "\<not> loop_entered fullWA cd cur domain \<Longrightarrow>
   findDimsToCollapse_loop mc fullWA cd cur ins outs domain tr = Inr (state_result ins outs domain tr cd)"
  by (subst findDimsToCollapse_loop.simps) (auto simp: loop_entered_def state_result_def)

lemma loop_step_entered:
  assumes "loop_entered fullWA cd cur domain"
  shows "findDimsToCollapse_loop mc fullWA cd cur ins outs domain tr =
     (case canCollapse_loop ins of
        Inl e \<Rightarrow> Inl e
      | Inr canCollapse \<Rightarrow>
          if next_amount cur domain = 0 then Inl DivByZero
          else if mc \<le> fullWA div next_amount cur domain
          then
            if \<not> canCollapse
            then
              if tr < maxTileRank
              then findDimsToCollapse_loop mc fullWA cd (next_amount cur domain) ins outs domain (tr + 1)
              else Inr (state_result ins outs domain tr cd)
            else
              (case collapse_all ins of
                 Inl e \<Rightarrow> Inl e
               | Inr ins' \<Rightarrow>
                   (case collapse_all outs of
                      Inl e \<Rightarrow> Inl e
                    | Inr outs' \<Rightarrow>
                        (case collapseLastDims domain 1 of
                           Inl e \<Rightarrow> Inl e
                         | Inr domain' \<Rightarrow>
                             findDimsToCollapse_loop mc fullWA (cd + 1) (next_amount cur domain)
                               ins' outs' domain' tr)))
          else Inr (state_result ins outs domain tr cd))"
proof -
  have "\<not> int (length domain) - int cd - 2 < 0"
    and "cur < minimalJitWorkAmount \<and> cur < fullWA"
    using assms by (simp_all add: loop_entered_def)
  then show ?thesis
    unfolding state_result_def next_amount_def
    by (subst findDimsToCollapse_loop.simps)
       (auto simp: Let_def split: sum.splits)
qed

lemma loop_result_induct [consumes 1, case_names stop tile fold]:
  assumes run: "findDimsToCollapse_loop mc fullWA cd cur ins outs domain tr = Inr r"
    and stop: "\<And>cd cur ins outs domain tr.
        findDimsToCollapse_loop mc fullWA cd cur ins outs domain tr
          = Inr (state_result ins outs domain tr cd)
        \<Longrightarrow> P cd cur ins outs domain tr (state_result ins outs domain tr cd)"
    and tile: "\<And>cd cur ins outs domain tr r.
        \<lbrakk>loop_entered fullWA cd cur domain; canCollapse_loop ins = Inr False;
         next_amount cur domain \<noteq> 0; mc \<le> fullWA div next_amount cur domain;
         tr < maxTileRank;
         findDimsToCollapse_loop mc fullWA cd (next_amount cur domain) ins outs domain (tr + 1) = Inr r;
         P cd (next_amount cur domain) ins outs domain (tr + 1) r\<rbrakk>
        \<Longrightarrow> P cd cur ins outs domain tr r"
    and fold: "\<And>cd cur ins outs domain tr ins' outs' domain' r.
        \<lbrakk>loop_entered fullWA cd cur domain; canCollapse_loop ins = Inr True;
         next_amount cur domain \<noteq> 0; mc \<le> fullWA div next_amount cur domain;
         collapse_all ins = Inr ins'; collapse_all outs = Inr outs';
         collapseLastDims domain 1 = Inr domain';
         findDimsToCollapse_loop mc fullWA (cd + 1) (next_amount cur domain) ins' outs' domain' tr = Inr r;
         P (cd + 1) (next_amount cur domain) ins' outs' domain' tr r\<rbrakk>
        \<Longrightarrow> P cd cur ins outs domain tr r"
  shows "P cd cur ins outs domain tr r"
proof -
  have "findDimsToCollapse_loop mc' fullWA' cd cur ins outs domain tr = Inr r \<Longrightarrow>
        mc' = mc \<Longrightarrow> fullWA' = fullWA \<Longrightarrow> P cd cur ins outs domain tr r" for mc' fullWA'
  proof (induction mc' fullWA' cd cur ins outs domain tr rule: findDimsToCollapse_loop.induct)
    case (1 mc' fullWA' cd cur ins outs domain tr)
    have e1: "mc' = mc" and e2: "fullWA' = fullWA" using "1.prems" by auto
    have run: "findDimsToCollapse_loop mc fullWA cd cur ins outs domain tr = Inr r"
      using "1.prems" by simp
    note IH1 = "1.IH"(1) [unfolded e1 e2]
    note IH2 = "1.IH"(2) [unfolded e1 e2]
    show ?case
    proof (cases "loop_entered fullWA cd cur domain")
      case False
      then have eq: "findDimsToCollapse_loop mc fullWA cd cur ins outs domain tr
          = Inr (state_result ins outs domain tr cd)"
        by (rule loop_stop_not_entered)
      then have "r = state_result ins outs domain tr cd" using run by simp
      then show ?thesis using stop [OF eq] by simp
    next
      case True
      note step = loop_step_entered [OF True, of mc ins outs tr]
      have nn: "\<not> int (length domain) - int cd - 2 < 0"
        and cc: "cur < minimalJitWorkAmount \<and> cur < fullWA"
        using True by (simp_all add: loop_entered_def)
      obtain b where b: "canCollapse_loop ins = Inr b"
        using run step by (cases "canCollapse_loop ins") auto
      have nz: "next_amount cur domain \<noteq> 0"
        using run step b by (auto split: if_splits)
      have nz': "cur * domain ! (length domain - 2) \<noteq> 0"
        using nz by (simp add: next_amount_def)
      show ?thesis
      proof (cases "mc \<le> fullWA div next_amount cur domain")
        case False
        then have eq: "findDimsToCollapse_loop mc fullWA cd cur ins outs domain tr
            = Inr (state_result ins outs domain tr cd)"
          using step b nz by simp
        then have "r = state_result ins outs domain tr cd" using run by simp
        then show ?thesis using stop [OF eq] by simp
      next
        case conc: True
        have conc': "mc \<le> fullWA div (cur * domain ! (length domain - 2))"
          using conc by (simp add: next_amount_def)
        show ?thesis
        proof (cases b)
          case False
          show ?thesis
          proof (cases "tr < maxTileRank")
            case F2: False
            then have eq: "findDimsToCollapse_loop mc fullWA cd cur ins outs domain tr
                = Inr (state_result ins outs domain tr cd)"
              using step b nz conc False by simp
            then have "r = state_result ins outs domain tr cd" using run by simp
            then show ?thesis using stop [OF eq] by simp
          next
            case T2: True
            have rec: "findDimsToCollapse_loop mc fullWA cd (next_amount cur domain) ins outs domain (tr + 1) = Inr r"
              using step b nz conc False T2 run by simp
            have rec': "findDimsToCollapse_loop mc fullWA cd (cur * domain ! (length domain - 2)) ins outs domain (tr + 1) = Inr r"
              using rec by (simp add: next_amount_def)
            have "P cd (cur * domain ! (length domain - 2)) ins outs domain (tr + 1) r"
              using IH1 [OF cc nn b refl nz' conc' False T2 rec' refl refl] .
            then have "P cd (next_amount cur domain) ins outs domain (tr + 1) r"
              by (simp add: next_amount_def)
            then show ?thesis
              using tile [OF True _ nz conc T2 rec] b False by simp
          qed
        next
          case bT: True
          obtain ins' where i': "collapse_all ins = Inr ins'"
            using run step b nz conc bT by (cases "collapse_all ins") auto
          obtain outs' where o': "collapse_all outs = Inr outs'"
            using run step b nz conc bT i' by (cases "collapse_all outs") auto
          obtain domain' where d': "collapseLastDims domain 1 = Inr domain'"
            using run step b nz conc bT i' o' by (cases "collapseLastDims domain 1") auto
          have rec: "findDimsToCollapse_loop mc fullWA (cd + 1) (next_amount cur domain) ins' outs' domain' tr = Inr r"
            using step b nz conc bT i' o' d' run by simp
          have rec': "findDimsToCollapse_loop mc fullWA (cd + 1) (cur * domain ! (length domain - 2)) ins' outs' domain' tr = Inr r"
            using rec by (simp add: next_amount_def)
          have nnb: "\<not> \<not> b" using bT by simp
          have "P (cd + 1) (cur * domain ! (length domain - 2)) ins' outs' domain' tr r"
            using IH2 [OF cc nn b refl nz' conc' nnb i' o' d' rec' refl refl] .
          then have "P (cd + 1) (next_amount cur domain) ins' outs' domain' tr r"
            by (simp add: next_amount_def)
          then show ?thesis
            using fold [OF True _ nz conc i' o' d' rec] b bT by simp
        qed
      qed
    qed
  qed
  then show ?thesis using run by simp
qed

lemma state_result_sel [simp]:
  "res_inputShapes (state_result ins outs domain tr cd) = ins"
  "res_outputShapes (state_result ins outs domain tr cd) = outs"
  "res_domain (state_result ins outs domain tr cd) = domain"
  "res_TileRank (state_result ins outs domain tr cd) = tr"
  "res_collapsedDims (state_result ins outs domain tr cd) = cd"
  by (simp_all add: state_result_def)

lemma loop_prod:
  assumes "findDimsToCollapse_loop mc fullWA cd cur ins outs domain tr = Inr r"
  shows "prod_list (res_domain r) = prod_list domain"
  using assms
proof (induction rule: loop_result_induct)
  case (stop cd cur ins outs domain tr)
  then show ?case by simp
next
  case (tile cd cur ins outs domain tr r)
  then show ?case by simp
next
  case (fold cd cur ins outs domain tr ins' outs' domain' r)
  have "3 \<le> length domain \<and> domain' = folded domain"
    using fold.hyps(7) by (rule collapseLastDims_one_Inr)
  then have "prod_list domain' = prod_list domain" by (simp add: folded_prod)
  then show ?case using fold.IH by simp
qed

lemma loop_floor:
  assumes "findDimsToCollapse_loop mc fullWA cd cur ins outs domain tr = Inr r"
    and "canCollapse_loop ins = Inr False \<or> cur = last domain"
  shows "(res_collapsedDims r = cd \<and> res_domain r = domain) \<or> mc \<le> fullWA div last (res_domain r)"
  using assms
proof (induction rule: loop_result_induct)
  case (stop cd cur ins outs domain tr)
  then show ?case by simp
next
  case (tile cd cur ins outs domain tr r)
  then show ?case by simp
next
  case (fold cd cur ins outs domain tr ins' outs' domain' r)
  have d: "3 \<le> length domain \<and> domain' = folded domain"
    using fold.hyps(7) by (rule collapseLastDims_one_Inr)
  have cur: "cur = last domain" using fold.prems fold.hyps(2) by simp
  have "domain \<noteq> []" using d by auto
  then have "last domain = domain ! (length domain - 1)" by (rule last_conv_nth)
  then have nxt: "next_amount cur domain = last domain'"
    using d cur by (simp add: next_amount_def folded_last)
  then have "(res_collapsedDims r = cd + 1 \<and> res_domain r = domain')
      \<or> mc \<le> fullWA div last (res_domain r)"
    using fold.IH by simp
  then show ?case using fold.hyps(4) nxt by auto
qed

lemma loop_tile_rank:
  assumes "findDimsToCollapse_loop mc fullWA cd cur ins outs domain tr = Inr r"
  shows "tr \<le> res_TileRank r \<and> res_TileRank r \<le> max tr maxTileRank"
  using assms
proof (induction rule: loop_result_induct)
  case (stop cd cur ins outs domain tr)
  then show ?case by simp
next
  case (tile cd cur ins outs domain tr r)
  then show ?case by auto
next
  case (fold cd cur ins outs domain tr ins' outs' domain' r)
  then show ?case by simp
qed


lemma canCollapse_loop_eq:
  "list_all (\<lambda>sh. 2 \<le> length sh) ins \<Longrightarrow>
   canCollapse_loop ins = Inr (\<not> list_ex broadcast_mismatch ins)"
  by (induction ins) auto

lemma collapseLastDims_Suc0:
  "3 \<le> length dims \<Longrightarrow> collapseLastDims dims (Suc 0) = Inr (folded dims)"
  using collapseLastDims_one by simp

lemma collapse_all_Inr:
  "list_all (\<lambda>sh. 3 \<le> length sh) shs \<Longrightarrow> collapse_all shs = Inr (map folded shs)"
  by (induction shs) (auto simp: collapseLastDims_Suc0)

lemma collapse_all_lengths:
  "list_all (\<lambda>sh. 3 \<le> length sh) shs \<Longrightarrow> list_all (\<lambda>sh. 3 \<le> length sh) (map folded shs)"
  by (induction shs) (auto simp: folded_length)

lemma prod_list_pos_nth:
  "0 < prod_list (xs::nat list) \<Longrightarrow> i < length xs \<Longrightarrow> 0 < xs ! i"
proof (induction xs arbitrary: i)
  case Nil
  then show ?case by simp
next
  case (Cons x xs)
  then show ?case by (cases i) auto
qed

lemma loop_total:
  assumes "3 \<le> length domain"
    and "list_all (\<lambda>sh. 3 \<le> length sh) ins" and "list_all (\<lambda>sh. 3 \<le> length sh) outs"
    and "prod_list domain = 0 \<longrightarrow> fullWA = 0" and "0 < fullWA \<longrightarrow> 0 < cur"
  shows "\<exists>r. findDimsToCollapse_loop mc fullWA cd cur ins outs domain tr = Inr r"
  using assms
proof (induction mc fullWA cd cur ins outs domain tr rule: findDimsToCollapse_loop.induct)
  case (1 mc fullWA cd cur ins outs domain tr)
  show ?case
  proof (cases "loop_entered fullWA cd cur domain")
    case False
    then show ?thesis using loop_stop_not_entered by blast
  next
    case True
    note step = loop_step_entered [OF True, of mc ins outs tr]
    have nn: "\<not> int (length domain) - int cd - 2 < 0"
      and cc: "cur < minimalJitWorkAmount \<and> cur < fullWA"
      using True by (simp_all add: loop_entered_def)
    have "list_all (\<lambda>sh. 2 \<le> length sh) ins"
      using "1.prems"(2) by (auto simp: list_all_iff)
    then have b: "canCollapse_loop ins = Inr (\<not> list_ex broadcast_mismatch ins)"
      by (rule canCollapse_loop_eq)
    have pos: "0 < fullWA" using cc by simp
    then have "0 < cur" using "1.prems"(5) by simp
    moreover have pd: "0 < prod_list domain" using pos "1.prems"(4) by auto
    then have "0 < domain ! (length domain - 2)"
      using "1.prems"(1) by (intro prod_list_pos_nth) auto
    ultimately have nz': "cur * domain ! (length domain - 2) \<noteq> 0" by simp
    then have nz: "next_amount cur domain \<noteq> 0" by (simp add: next_amount_def)
    show ?thesis
    proof (cases "mc \<le> fullWA div next_amount cur domain")
      case False
      then show ?thesis using step b nz by simp
    next
      case conc: True
      have conc': "mc \<le> fullWA div (cur * domain ! (length domain - 2))"
        using conc by (simp add: next_amount_def)
      show ?thesis
      proof (cases "list_ex broadcast_mismatch ins")
        case mm: True
        show ?thesis
        proof (cases "tr < maxTileRank")
          case False
          then show ?thesis using step b nz conc mm by simp
        next
          case T2: True
          have "\<exists>r. findDimsToCollapse_loop mc fullWA cd (cur * domain ! (length domain - 2))
                  ins outs domain (tr + 1) = Inr r"
            using "1.IH"(1) [OF cc nn b refl nz' conc' _ T2 "1.prems"(1,2,3,4)] mm nz' by simp
          then show ?thesis using step b nz conc mm T2 by (simp add: next_amount_def)
        qed
      next
        case nm: False
        have i': "collapse_all ins = Inr (map folded ins)"
          using "1.prems"(2) by (rule collapse_all_Inr)
        have o': "collapse_all outs = Inr (map folded outs)"
          using "1.prems"(3) by (rule collapse_all_Inr)
        have d': "collapseLastDims domain 1 = Inr (folded domain)"
          using "1.prems"(1) by (rule collapseLastDims_one)
        have l2: "2 \<le> length domain" using "1.prems"(1) by simp
        have "\<exists>r. findDimsToCollapse_loop mc fullWA (cd + 1) (cur * domain ! (length domain - 2))
                  (map folded ins) (map folded outs) (folded domain) tr = Inr r"
          using "1.IH"(2) [OF cc nn b refl nz' conc' _ i' o' d'] nm nz' "1.prems" l2
          by (simp add: folded_length folded_prod collapse_all_lengths)
        then show ?thesis using step b nz conc nm i' o' d' by (simp add: next_amount_def)
      qed
    qed
  qed
qed

subsection \<open>optimizeExecDomain: the element count (claim C3)\<close>

lemma findDimsToCollapse_Inr:
  assumes "findDimsToCollapse mc fullWA ins outs domain tr = Inr r"
  shows "domain \<noteq> [] \<and>
         findDimsToCollapse_loop mc fullWA 0 (last domain) ins outs domain tr = Inr r"
proof -
  have ne: "domain \<noteq> []" using assms by (auto simp: findDimsToCollapse_def split: if_splits)
  then have "domain ! (length domain - 1) = last domain" by (simp add: last_conv_nth)
  then show ?thesis using assms ne by (simp add: findDimsToCollapse_def)
qed

lemma optimizeExecDomain_Inr:
  assumes "optimizeExecDomain mc fullWA ins outs domain tr = Inr (ins', outs', domain', tr')"
  shows "\<exists>r. findDimsToCollapse mc fullWA ins outs domain tr = Inr r \<and>
             res_inputShapes r = ins' \<and> res_outputShapes r = outs' \<and>
             res_domain r = domain' \<and> res_TileRank r = tr'"
  using assms by (auto simp: optimizeExecDomain_def split: sum.splits)

lemma exec_domain_valid_lengths:
  assumes "exec_domain_valid ins outs domain"
  shows "3 \<le> length domain" and "list_all (\<lambda>sh. 3 \<le> length sh) ins"
    and "list_all (\<lambda>sh. 3 \<le> length sh) outs"
  using assms by (auto simp: exec_domain_valid_def list_all_iff)

lemma loop_length:
  assumes "findDimsToCollapse_loop mc fullWA cd cur ins outs domain tr = Inr r"
  shows "length (res_domain r) = length domain"
  using assms
proof (induction rule: loop_result_induct)
  case (stop cd cur ins outs domain tr)
  show ?case by simp
next
  case (tile cd cur ins outs domain tr r)
  then show ?case by simp
next
  case (fold cd cur ins outs domain tr ins' outs' domain' r)
  then show ?case by (simp add: collapseLastDims_length)
qed

lemma optimizeExecDomain_total:
  assumes "exec_domain_valid ins outs domain" and "prod_list domain = 0 \<longrightarrow> fullWA = 0"
  shows "\<exists>ins' outs' domain' tr'.
           optimizeExecDomain mt fullWA ins outs domain tr = Inr (ins', outs', domain', tr') \<and>
           prod_list domain' = prod_list domain \<and> length domain' = length domain \<and>
           tr \<le> tr' \<and> tr' \<le> max tr maxTileRank"
proof -
  note v = exec_domain_valid_lengths [OF assms(1)]
  have ne: "domain \<noteq> []" using v(1) by auto
  have "0 < fullWA \<longrightarrow> 0 < domain ! (length domain - 1)"
    using assms(2) v(1) by (auto intro: prod_list_pos_nth)
  then obtain r where r: "findDimsToCollapse_loop mt fullWA 0 (domain ! (length domain - 1))
                             ins outs domain tr = Inr r"
    using loop_total [OF v assms(2), of "domain ! (length domain - 1)" mt 0 tr] by blast
  have a: "prod_list (res_domain r) = prod_list domain" using r by (rule loop_prod)
  have b: "length (res_domain r) = length domain" using r by (rule loop_length)
  have c: "tr \<le> res_TileRank r \<and> res_TileRank r \<le> max tr maxTileRank" using r by (rule loop_tile_rank)
  have "optimizeExecDomain mt fullWA ins outs domain tr
        = Inr (res_inputShapes r, res_outputShapes r, res_domain r, res_TileRank r)"
    using r ne by (simp add: optimizeExecDomain_def findDimsToCollapse_def)
  then show ?thesis using a b c by blast
qed

text \<open>
  Claim C3, as stated, fails in its account of one fold. The claim has a fold multiply
  the innermost extent by the folded extent and replace the folded position with 1
  (\<open>fold_as_claimed\<close>): \<open>[2, 3, 4, 5, 6, 7]\<close> would become \<open>[2, 3, 4, 5, 1, 42]\<close>. The
  source, \<^verbatim>\<open>collapseLastDims(dims, 1)\<close>, moves the outer extents one place inwards and puts
  the 1 in front: \<open>[1, 2, 3, 4, 5, 42]\<close>. The domain optimizer itself, on 4 threads, turns
  the master shape \<open>[1, 1, 1, 4, 2, 3]\<close> into \<open>[1, 1, 1, 1, 4, 6]\<close>, where the claim's fold
  gives \<open>[1, 1, 1, 4, 1, 6]\<close>: the position next to the innermost holds 4, not 1.
\<close>

theorem C3_fold_position_counterexample:
  "collapseLastDims [2, 3, 4, 5, 6, 7] 1 = Inr [1, 2, 3, 4, 5, 42] \<and>
   fold_as_claimed [2, 3, 4, 5, 6, 7] = [2, 3, 4, 5, 1, 42] \<and>
   [1, 2, 3, 4, 5, 42] \<noteq> [2, 3, 4, 5, 1, 42 :: nat] \<and>
   optimizeExecDomain 4 24 [[1, 1, 1, 4, 2, 3]] [[1, 1, 1, 4, 2, 3]] [1, 1, 1, 4, 2, 3] 1
     = Inr ([[1, 1, 1, 1, 4, 6]], [[1, 1, 1, 1, 4, 6]], [1, 1, 1, 1, 4, 6], 1) \<and>
   fold_as_claimed [1, 1, 1, 4, 2, 3] = [1, 1, 1, 4, 1, 6] \<and>
   [1, 1, 1, 1, 4, 6] \<noteq> [1, 1, 1, 4, 1, 6 :: nat]"
proof -
  have a: "collapseLastDims [2, 3, 4, 5, 6, 7] 1 = Inr [1, 2, 3, 4, 5, 42]"
    by (simp add: collapseLastDims_Suc0 folded_def)
  have b: "fold_as_claimed [2, 3, 4, 5, 6, 7] = [2, 3, 4, 5, 1, 42]"
    "fold_as_claimed [1, 1, 1, 4, 2, 3] = [1, 1, 1, 4, 1, 6]"
    by (simp_all add: fold_as_claimed_def)
  have c: "optimizeExecDomain 4 24 [[1, 1, 1, 4, 2, 3]] [[1, 1, 1, 4, 2, 3]] [1, 1, 1, 4, 2, 3] 1
     = Inr ([[1, 1, 1, 1, 4, 6]], [[1, 1, 1, 1, 4, 6]], [1, 1, 1, 1, 4, 6], 1)"
    by code_simp
  have d: "[1, 2, 3, 4, 5, 42] \<noteq> [2, 3, 4, 5, 1, 42 :: nat]"
    "[1, 1, 1, 1, 4, 6] \<noteq> [1, 1, 1, 4, 1, 6 :: nat]"
    by simp_all
  show ?thesis using a b c d by (intro conjI)
qed

text \<open>
  Claim C3, amended: for every valid input (a domain of rank at least 3, every operand
  shape of the rank of the domain, and a \<^verbatim>\<open>fullWorkAmount\<close> that is 0 when the domain has an
  extent 0) the domain optimizer returns, and the domain it returns has the rank and the
  product of extents of the master shape it started from. One fold,
  \<^verbatim>\<open>collapseLastDims(domain, 1)\<close>, multiplies the innermost extent by the extent next to it,
  moves the remaining outer extents one place inwards and puts 1 in front, so collapsing
  never changes the total element count.

  The condition on \<^verbatim>\<open>fullWorkAmount\<close> holds of the element count and of the value
  \<^verbatim>\<open>prepareParams\<close> passes, whatever the size of the shape (lemma
  \<open>fullWorkAmount_zero_extent\<close>): the 32-bit accumulator does not affect this property.
\<close>

theorem C3_optimizeExecDomain_preserves_product:
  assumes "exec_domain_valid ins outs domain" and "prod_list domain = 0 \<longrightarrow> fullWA = 0"
  shows "(\<exists>ins' outs' domain' tr'.
            optimizeExecDomain max_threads fullWA ins outs domain tr = Inr (ins', outs', domain', tr')
            \<and> prod_list domain' = prod_list domain \<and> length domain' = length domain) \<and>
         collapseLastDims domain 1
           = Inr (1 # take (length domain - 2) domain
                    @ [domain ! (length domain - 1) * domain ! (length domain - 2)]) \<and>
         prod_list (1 # take (length domain - 2) domain
                      @ [domain ! (length domain - 1) * domain ! (length domain - 2)])
           = prod_list domain"
proof -
  note v = exec_domain_valid_lengths [OF assms(1)]
  have A: "\<exists>ins' outs' domain' tr'.
            optimizeExecDomain max_threads fullWA ins outs domain tr = Inr (ins', outs', domain', tr')
            \<and> prod_list domain' = prod_list domain \<and> length domain' = length domain"
    using optimizeExecDomain_total [OF assms, of max_threads tr] by blast
  have B: "collapseLastDims domain 1 = Inr (folded domain)"
    using v(1) by (rule collapseLastDims_one)
  have C: "prod_list (folded domain) = prod_list domain"
    using v(1) by (intro folded_prod) simp
  show ?thesis using A B C unfolding folded_def by blast
qed

theorem C3_optimizeExecDomain_preserves_product_witness:
  "exec_domain_valid [[1, 1, 1, 4, 2, 3]] [[1, 1, 1, 4, 2, 3]] [1, 1, 1, 4, 2, 3] \<and>
   prod_list [1, 1, 1, 4, 2, 3] \<noteq> (0::nat) \<and>
   to_size_t (accumulate_mul [1, 1, 1, 4, 2, 3] 1) = 24 \<and>
   optimizeExecDomain 4 24 [[1, 1, 1, 4, 2, 3]] [[1, 1, 1, 4, 2, 3]] [1, 1, 1, 4, 2, 3] 1
     = Inr ([[1, 1, 1, 1, 4, 6]], [[1, 1, 1, 1, 4, 6]], [1, 1, 1, 1, 4, 6], 1) \<and>
   prod_list [1, 1, 1, 1, 4, 6] = prod_list [1, 1, 1, 4, 2, 3 :: nat] \<and>
   length [1, 1, 1, 1, 4, 6 :: nat] = length [1, 1, 1, 4, 2, 3 :: nat] \<and>
   collapseLastDims [1, 1, 1, 4, 2, 3] 1 = Inr [1, 1, 1, 1, 4, 6]"
proof -
  have h1: "exec_domain_valid [[1, 1, 1, 4, 2, 3]] [[1, 1, 1, 4, 2, 3]] [1, 1, 1, 4, 2, 3]"
    by code_simp
  have nz: "prod_list [1, 1, 1, 4, 2, 3] \<noteq> (0::nat)"
    by simp
  then have h2: "prod_list [1, 1, 1, 4, 2, 3 :: nat] = 0 \<longrightarrow> (24::nat) = 0"
    by simp
  have acc: "to_size_t (accumulate_mul [1, 1, 1, 4, 2, 3] 1) = 24"
    using fullWorkAmount_small [of "[1, 1, 1, 4, 2, 3]"] by simp
  have ev: "optimizeExecDomain 4 24 [[1, 1, 1, 4, 2, 3]] [[1, 1, 1, 4, 2, 3]] [1, 1, 1, 4, 2, 3] 1
     = Inr ([[1, 1, 1, 1, 4, 6]], [[1, 1, 1, 1, 4, 6]], [1, 1, 1, 1, 4, 6], 1)"
    by code_simp
  note c = C3_optimizeExecDomain_preserves_product [OF h1 h2, of 4 1]
  obtain ins' outs' domain' tr' where
    r: "optimizeExecDomain 4 24 [[1, 1, 1, 4, 2, 3]] [[1, 1, 1, 4, 2, 3]] [1, 1, 1, 4, 2, 3] 1
          = Inr (ins', outs', domain', tr')"
    and p: "prod_list domain' = prod_list [1, 1, 1, 4, 2, 3 :: nat]"
    and l: "length domain' = length [1, 1, 1, 4, 2, 3 :: nat]"
    using c by blast
  have d: "domain' = [1, 1, 1, 1, 4, 6]" using r unfolding ev by auto
  have p': "prod_list [1, 1, 1, 1, 4, 6] = prod_list [1, 1, 1, 4, 2, 3 :: nat]"
    using p d by simp
  have l': "length [1, 1, 1, 1, 4, 6 :: nat] = length [1, 1, 1, 4, 2, 3 :: nat]"
    using l d by simp
  have f: "collapseLastDims [1, 1, 1, 4, 2, 3] 1 = Inr [1, 1, 1, 1, 4, 6]"
    by code_simp
  show ?thesis using h1 nz acc ev p' l' f by (intro conjI)
qed

subsection \<open>optimizeExecDomain: the parallelism floor (claim C4)\<close>

text \<open>
  Claim C4, as stated, fails. With 4 threads the domain \<open>[1, 1, 1, 1, 2, 8]\<close> (16
  elements, rank 6) enters the loop; the fold would leave parallelism \<open>16 div 16 = 1\<close>, so
  it is refused and the domain is returned as it came. Its parallelism is
  \<open>16 div 8 = 2\<close>, below the floor of 4, although the rank of the uncollapsed domain is not
  below 2. The optimizer refuses folds that would go below the floor; it does not raise
  the parallelism of the domain it is given.
\<close>

theorem C4_parallelism_floor_counterexample:
  "optimizeExecDomain 4 16 [[1, 1, 1, 1, 2, 8]] [[1, 1, 1, 1, 2, 8]] [1, 1, 1, 1, 2, 8] 1
     = Inr ([[1, 1, 1, 1, 2, 8]], [[1, 1, 1, 1, 2, 8]], [1, 1, 1, 1, 2, 8], 1) \<and>
   (16::nat) = prod_list [1, 1, 1, 1, 2, 8] \<and>
   prod_list [1, 1, 1, 1, 2, 8] div last [1, 1, 1, 1, 2, 8] < (4::nat) \<and>
   \<not> length [1, 1, 1, 1, 2, 8 :: nat] < 2"
proof -
  have "optimizeExecDomain 4 16 [[1, 1, 1, 1, 2, 8]] [[1, 1, 1, 1, 2, 8]] [1, 1, 1, 1, 2, 8] 1
     = Inr ([[1, 1, 1, 1, 2, 8]], [[1, 1, 1, 1, 2, 8]], [1, 1, 1, 1, 2, 8], 1)"
    by code_simp
  then show ?thesis by simp
qed

text \<open>
  Claim C4, amended: whenever the domain optimizer returns a domain other than the one it
  was given, that is whenever it accepted at least one fold, \<^verbatim>\<open>fullWorkAmount\<close> divided by
  the innermost extent of the returned domain is at or above the thread floor
  \<^verbatim>\<open>parallel_get_max_threads()\<close>: a fold is accepted only while this quotient stays at or
  above the floor. Whenever \<^verbatim>\<open>fullWorkAmount\<close> is the total element count of the domain, the
  quotient is the parallelism of the returned domain (total element count divided by the
  innermost extent), which is then at or above the floor. A domain returned without any
  fold is the domain given, whatever its parallelism.

  \<^verbatim>\<open>prepareParams\<close> passes the element count for master shapes of fewer than \<open>2 ^ 31\<close>
  elements (lemma \<open>fullWorkAmount_small\<close>); what its 32-bit accumulator makes of larger
  shapes is left out here.
\<close>

theorem C4_parallelism_floor_amended:
  assumes "optimizeExecDomain max_threads fullWA ins outs domain tr = Inr (ins', outs', domain', tr')"
    and "domain' \<noteq> domain"
  shows "max_threads \<le> fullWA div last domain' \<and>
         (fullWA = prod_list domain \<longrightarrow> max_threads \<le> prod_list domain' div last domain')"
proof -
  obtain r where r: "findDimsToCollapse max_threads fullWA ins outs domain tr = Inr r"
    and d: "res_domain r = domain'"
    using optimizeExecDomain_Inr [OF assms(1)] by blast
  have run: "findDimsToCollapse_loop max_threads fullWA 0 (last domain) ins outs domain tr = Inr r"
    using findDimsToCollapse_Inr [OF r] by simp
  have "(res_collapsedDims r = 0 \<and> res_domain r = domain)
        \<or> max_threads \<le> fullWA div last (res_domain r)"
    using run by (rule loop_floor) simp
  then have a: "max_threads \<le> fullWA div last domain'" using d assms(2) by auto
  have "prod_list domain' = prod_list domain" using loop_prod [OF run] d by simp
  then show ?thesis using a by auto
qed

theorem C4_parallelism_floor_amended_witness:
  "optimizeExecDomain 4 24 [[1, 1, 1, 4, 2, 3]] [[1, 1, 1, 4, 2, 3]] [1, 1, 1, 4, 2, 3] 1
     = Inr ([[1, 1, 1, 1, 4, 6]], [[1, 1, 1, 1, 4, 6]], [1, 1, 1, 1, 4, 6], 1) \<and>
   [1, 1, 1, 1, 4, 6] \<noteq> [1, 1, 1, 4, 2, 3 :: nat] \<and>
   (24::nat) = prod_list [1, 1, 1, 4, 2, 3] \<and>
   (4::nat) \<le> 24 div last [1, 1, 1, 1, 4, 6] \<and>
   (4::nat) \<le> prod_list [1, 1, 1, 1, 4, 6] div last [1, 1, 1, 1, 4, 6]"
proof -
  have ev: "optimizeExecDomain 4 24 [[1, 1, 1, 4, 2, 3]] [[1, 1, 1, 4, 2, 3]] [1, 1, 1, 4, 2, 3] 1
     = Inr ([[1, 1, 1, 1, 4, 6]], [[1, 1, 1, 1, 4, 6]], [1, 1, 1, 1, 4, 6], 1)"
    by code_simp
  have h1: "(24::nat) = prod_list [1, 1, 1, 4, 2, 3]"
    by code_simp
  have h2: "[1, 1, 1, 1, 4, 6] \<noteq> [1, 1, 1, 4, 2, 3 :: nat]"
    by simp
  note c = C4_parallelism_floor_amended [OF ev h2]
  have c1: "(4::nat) \<le> 24 div last [1, 1, 1, 1, 4, 6]" using c by (rule conjunct1)
  have c2: "(4::nat) \<le> prod_list [1, 1, 1, 1, 4, 6] div last [1, 1, 1, 1, 4, 6]"
    using c h1 by blast
  show ?thesis using ev h2 h1 c1 c2 by (intro conjI)
qed

subsection \<open>optimizeExecDomain: broadcast patterns and the tile rank (claim C5)\<close>




subsection \<open>Dispatch: mixed-radix indices and the partitioner\<close>

lemma mixed_radix_Nil [simp]: "mixed_radix [] i = []"
  by (simp add: mixed_radix_def)

lemma mixed_radix_snoc: "mixed_radix (ds @ [d]) i = mixed_radix ds (i div d) @ [i mod d]"
  by (simp add: mixed_radix_def)

lemma mixed_radix_rev_length [simp]: "length (mixed_radix_rev ds i) = length ds"
  by (induction ds arbitrary: i) auto

lemma mixed_radix_length [simp]: "length (mixed_radix ds i) = length ds"
  by (simp add: mixed_radix_def)

lemma index_loop_eq:
  "n \<le> length ws \<Longrightarrow> n \<le> length idx \<Longrightarrow> (\<forall>j<n. 0 < ws ! j) \<Longrightarrow>
   index_loop n ws tmp idx = Inr (map int (mixed_radix (take n ws) tmp) @ drop n idx)"
proof (induction n arbitrary: tmp idx)
  case 0
  then show ?case by simp
next
  case (Suc n)
  have pos: "ws ! n \<noteq> 0" using Suc.prems(3) by auto
  have "index_loop (Suc n) ws tmp idx
        = index_loop n ws (tmp div ws ! n) (idx[n := int (tmp mod ws ! n)])"
    using pos by simp
  also have "\<dots> = Inr (map int (mixed_radix (take n ws) (tmp div ws ! n))
                        @ drop n (idx[n := int (tmp mod ws ! n)]))"
    using Suc.prems by (intro Suc.IH) auto
  also have "drop n (idx[n := int (tmp mod ws ! n)]) = int (tmp mod ws ! n) # drop (Suc n) idx"
    using Suc.prems(2) by (simp add: Cons_nth_drop_Suc [symmetric])
  also have "map int (mixed_radix (take n ws) (tmp div ws ! n)) @ int (tmp mod ws ! n) # drop (Suc n) idx
      = map int (mixed_radix (take (Suc n) ws) tmp) @ drop (Suc n) idx"
    using Suc.prems(1) by (simp add: take_Suc_conv_app_nth mixed_radix_snoc)
  finally show ?case .
qed

lemma iwork_loop_eq:
  "ws \<noteq> [] \<Longrightarrow> length idx = length ws - 1 \<Longrightarrow>
   (n_start < n_end \<longrightarrow> (\<forall>j<length ws - 1. 0 < ws ! j)) \<Longrightarrow>
   iwork_loop ws sc n_end n_start idx = Inr (map (nt_call (butlast ws) sc) [n_start..<n_end])"
proof (induction ws sc n_end n_start idx rule: iwork_loop.induct)
  case (1 ws sc n_end iwork idx)
  show ?case
  proof (cases "iwork < n_end")
    case False
    then show ?thesis by (subst iwork_loop.simps) simp
  next
    case True
    then have pos: "\<forall>j<length ws - 1. 0 < ws ! j" using "1.prems" by simp
    let ?idx' = "map int (mixed_radix (butlast ws) iwork)"
    have il: "index_loop (length ws - 1) ws iwork idx = Inr ?idx'"
      using index_loop_eq [of "length ws - 1" ws idx iwork] pos "1.prems"
      by (simp add: butlast_conv_take)
    have "iwork_loop ws sc n_end (Suc iwork) ?idx'
          = Inr (map (nt_call (butlast ws) sc) [Suc iwork..<n_end])"
      using "1.prems" pos True by (intro "1.IH" [OF True il]) auto
    then have "iwork_loop ws sc n_end iwork idx
          = Inr (nt_call (butlast ws) sc iwork # map (nt_call (butlast ws) sc) [Suc iwork..<n_end])"
      using True il by (subst iwork_loop.simps) (simp add: nt_call_def)
    then show ?thesis using True by (simp add: upt_conv_Cons)
  qed
qed

lemma splitter_fst_0: "fst (splitter n team 0) = 0"
  by (simp add: splitter_def Let_def)

lemma splitter_snd:
  "snd (splitter n team tid) = fst (splitter n team (Suc tid))"
  by (auto simp: splitter_def Let_def min_def)

lemma splitter_fst_team: "0 < team \<Longrightarrow> fst (splitter n team team) = n"
proof -
  assume "0 < team"
  then have "n mod team < team" by simp
  then have "min team (n mod team) = n mod team" by simp
  then show ?thesis by (simp add: splitter_def Let_def)
qed

lemma splitter_mono: "fst (splitter n team tid) \<le> fst (splitter n team (Suc tid))"
  by (auto simp: splitter_def Let_def min_def)

lemma concat_ranges:
  assumes "\<And>t. t < k \<Longrightarrow> b t \<le> b (Suc t)"
  shows "concat (map (\<lambda>t. [b t..<b (Suc t)]) [0..<k]) = [b 0..<b (k::nat)] \<and> b 0 \<le> b k"
  using assms
proof (induction k)
  case 0
  then show ?case by simp
next
  case (Suc k)
  then have IH: "concat (map (\<lambda>t. [b t..<b (Suc t)]) [0..<k]) = [b 0..<b k]" and le: "b 0 \<le> b k"
    by auto
  have le2: "b k \<le> b (Suc k)" using Suc.prems by simp
  have "[b 0..<b k] @ [b k..<b (Suc k)] = [b 0..<b (Suc k)]"
    using le le2 by (metis le_Suc_ex upt_add_eq_append)
  then show ?case using IH le le2 by simp
qed

lemma splitter_ranges:
  assumes "0 < team"
  shows "concat (map (\<lambda>t. [fst (splitter n team t)..<snd (splitter n team t)]) [0..<team]) = [0..<n]"
proof -
  have "concat (map (\<lambda>t. [fst (splitter n team t)..<fst (splitter n team (Suc t))]) [0..<team])
        = [fst (splitter n team 0)..<fst (splitter n team team)]"
    using concat_ranges [of team "\<lambda>t. fst (splitter n team t)"] splitter_mono by blast
  then show ?thesis using assms by (simp add: splitter_snd splitter_fst_0 splitter_fst_team)
qed

lemma unradix_mixed_radix_rev:
  "i < prod_list ds \<Longrightarrow> unradix_rev ds (mixed_radix_rev ds i) = i"
proof (induction ds arbitrary: i)
  case Nil
  then show ?case by simp
next
  case (Cons d ds)
  have "i div d < prod_list ds"
    using Cons.prems by (simp add: less_mult_imp_div_less mult.commute)
  then show ?case using Cons.IH by simp
qed

lemma mixed_radix_rev_bounded:
  "i < prod_list ds \<Longrightarrow> list_all2 (\<lambda>x d. x < d) (mixed_radix_rev ds i) ds"
proof (induction ds arbitrary: i)
  case Nil
  then show ?case by simp
next
  case (Cons d ds)
  have d: "0 < d" using Cons.prems by (cases d) auto
  have "i div d < prod_list ds"
    using Cons.prems by (simp add: less_mult_imp_div_less mult.commute)
  then show ?case using Cons.IH d by simp
qed

lemma mixed_radix_rev_unradix:
  "list_all2 (\<lambda>x d. x < d) xs ds \<Longrightarrow>
   unradix_rev ds xs < prod_list ds \<and> mixed_radix_rev ds (unradix_rev ds xs) = xs"
proof (induction xs ds rule: list_all2_induct)
  case Nil
  then show ?case by simp
next
  case (Cons x xs d ds)
  let ?u = "unradix_rev ds xs"
  have u: "?u < prod_list ds" and r: "mixed_radix_rev ds ?u = xs" using Cons.IH by auto
  have "Suc ?u \<le> prod_list ds" using u by simp
  then have "d * Suc ?u \<le> d * prod_list ds" by (rule mult_le_mono2)
  then have lt: "x + d * ?u < d * prod_list ds" using Cons.hyps(1) by simp
  have "(x + d * ?u) mod d = x" using Cons.hyps(1) by simp
  moreover have "(x + d * ?u) div d = ?u" using Cons.hyps(1) by simp
  ultimately show ?case using lt r by simp
qed

lemma mixed_radix_inj:
  "i < prod_list ds \<Longrightarrow> j < prod_list ds \<Longrightarrow> mixed_radix ds i = mixed_radix ds j \<Longrightarrow> i = j"
proof -
  assume a: "i < prod_list ds" "j < prod_list ds" "mixed_radix ds i = mixed_radix ds j"
  have "mixed_radix_rev (rev ds) i = mixed_radix_rev (rev ds) j"
    using a(3) by (simp add: mixed_radix_def)
  then have "unradix_rev (rev ds) (mixed_radix_rev (rev ds) i)
           = unradix_rev (rev ds) (mixed_radix_rev (rev ds) j)" by simp
  then show ?thesis using a(1,2) by (simp add: unradix_mixed_radix_rev)
qed

lemma mixed_radix_bounded:
  "i < prod_list ds \<Longrightarrow> list_all2 (\<lambda>x d. x < d) (mixed_radix ds i) ds"
proof -
  assume "i < prod_list ds"
  then have "list_all2 (\<lambda>x d. x < d) (mixed_radix_rev (rev ds) i) (rev ds)"
    by (intro mixed_radix_rev_bounded) simp
  then have "list_all2 (\<lambda>x d. x < d) (rev (mixed_radix_rev (rev ds) i)) (rev (rev ds))"
    by (simp only: list_all2_rev)
  then show ?thesis by (simp add: mixed_radix_def)
qed

lemma mixed_radix_surj:
  assumes "list_all2 (\<lambda>x d. x < d) xs ds"
  shows "\<exists>i<prod_list ds. mixed_radix ds i = xs"
proof -
  have "list_all2 (\<lambda>x d. x < d) (rev xs) (rev ds)" using assms by simp
  then have "unradix_rev (rev ds) (rev xs) < prod_list (rev ds)"
    and "mixed_radix_rev (rev ds) (unradix_rev (rev ds) (rev xs)) = rev xs"
    using mixed_radix_rev_unradix by blast+
  then show ?thesis by (auto simp: mixed_radix_def intro!: exI [of _ "unradix_rev (rev ds) (rev xs)"])
qed

lemma coordinate_iff:
  "list_all2 (\<lambda>x d. 0 \<le> x \<and> x < int d) idx ds
   \<longleftrightarrow> (\<exists>i<prod_list ds. idx = map int (mixed_radix ds i))"
proof
  assume a: "list_all2 (\<lambda>x d. 0 \<le> x \<and> x < int d) idx ds"
  then have nn: "\<forall>x\<in>set idx. 0 \<le> x"
    by (auto simp: list_all2_conv_all_nth in_set_conv_nth)
  have "list_all2 (\<lambda>x d. x < d) (map nat idx) ds"
    using a by (auto simp: list_all2_conv_all_nth)
  then obtain i where i: "i < prod_list ds" "mixed_radix ds i = map nat idx"
    using mixed_radix_surj by blast
  have "map int (map nat idx) = idx" using nn by (simp add: map_idI)
  then show "\<exists>i<prod_list ds. idx = map int (mixed_radix ds i)" using i by metis
next
  assume "\<exists>i<prod_list ds. idx = map int (mixed_radix ds i)"
  then obtain i where i: "i < prod_list ds" "idx = map int (mixed_radix ds i)" by blast
  have "list_all2 (\<lambda>x d. x < d) (mixed_radix ds i) ds" using i(1) by (rule mixed_radix_bounded)
  then show "list_all2 (\<lambda>x d. 0 \<le> x \<and> x < int d) idx ds"
    using i(2) by (auto simp: list_all2_conv_all_nth)
qed

lemma coverage:
  "distinct (map (\<lambda>i. map int (mixed_radix ds i)) [0..<prod_list ds]) \<and>
   (\<forall>idx. idx \<in> set (map (\<lambda>i. map int (mixed_radix ds i)) [0..<prod_list ds])
           \<longleftrightarrow> list_all2 (\<lambda>x d. 0 \<le> x \<and> x < int d) idx ds)"
proof
  have inj: "inj_on (\<lambda>i. map int (mixed_radix ds i)) (set [0..<prod_list ds])"
  proof (rule inj_onI)
    fix i j
    assume "i \<in> set [0..<prod_list ds]" "j \<in> set [0..<prod_list ds]"
      and e: "map int (mixed_radix ds i) = map int (mixed_radix ds j)"
    then have b: "i < prod_list ds" "j < prod_list ds" by auto
    have "inj int" by (simp add: inj_def)
    then have "mixed_radix ds i = mixed_radix ds j" using e by (simp add: inj_map_eq_map)
    then show "i = j" using b by (intro mixed_radix_inj)
  qed
  show "distinct (map (\<lambda>i. map int (mixed_radix ds i)) [0..<prod_list ds])"
    using inj by (simp add: distinct_map)
  show "\<forall>idx. idx \<in> set (map (\<lambda>i. map int (mixed_radix ds i)) [0..<prod_list ds])
           \<longleftrightarrow> list_all2 (\<lambda>x d. 0 \<le> x \<and> x < int d) idx ds"
    by (auto simp: coordinate_iff)
qed

lemma collect_map_Inr:
  "(\<And>x. x \<in> set xs \<Longrightarrow> f x = Inr (g x)) \<Longrightarrow> collect (map f xs) = Inr (map g xs)"
  by (induction xs) auto

lemma splitter_zero: "splitter 0 team tid = (0, 0)"
  by (simp add: splitter_def)

lemma thread_range_concat:
  "0 < team \<Longrightarrow> concat (map (thread_range n team) [0..<team]) = [0..<n]"
  using splitter_ranges [of team n] by (simp add: thread_range_def [abs_def])

lemma schedule_nt_eq_pos:
  assumes ne: "exec_domain s \<noteq> []"
    and pos: "0 < harnessWorkAmount s \<longrightarrow> (\<forall>j<length (exec_domain s) - 1. 0 < exec_domain s ! j)"
  shows "schedule_nt s nthr sc =
     Inr (map (\<lambda>ithr. map (nt_call (butlast (exec_domain s)) sc)
                         (thread_range (harnessWorkAmount s) nthr ithr)) [0..<nthr])"
proof -
  let ?ws = "exec_domain s"
  let ?W = "harnessWorkAmount s"
  have thread: "(case splitter ?W nthr ithr of (n_start, n_end) \<Rightarrow>
                  iwork_loop ?ws sc n_end n_start (replicate (length ?ws - 1) 0))
        = Inr (map (nt_call (butlast ?ws) sc) (thread_range ?W nthr ithr))" for ithr
  proof -
    obtain a b where ab: "splitter ?W nthr ithr = (a, b)" by (cases "splitter ?W nthr ithr")
    have p: "a < b \<longrightarrow> (\<forall>j<length ?ws - 1. 0 < ?ws ! j)"
    proof
      assume lt: "a < b"
      have "?W \<noteq> 0" using lt ab splitter_zero [of nthr ithr] by (cases "?W = 0") auto
      then show "\<forall>j<length ?ws - 1. 0 < ?ws ! j" using pos by simp
    qed
    have "iwork_loop ?ws sc b a (replicate (length ?ws - 1) 0)
          = Inr (map (nt_call (butlast ?ws) sc) [a..<b])"
      using ne p by (intro iwork_loop_eq) auto
    then show ?thesis using ab by (simp add: thread_range_def)
  qed
  have "schedule_nt s nthr sc =
      collect (map (\<lambda>ithr. case splitter ?W nthr ithr of (n_start, n_end) \<Rightarrow>
                  iwork_loop ?ws sc n_end n_start (replicate (length ?ws - 1) 0)) [0..<nthr])"
    using ne unfolding schedule_nt_def parallel_nt_def Let_def by simp
  also have "\<dots> = Inr (map (\<lambda>ithr. map (nt_call (butlast ?ws) sc) (thread_range ?W nthr ithr)) [0..<nthr])"
    by (rule collect_map_Inr) (rule thread)
  finally show ?thesis .
qed

lemma schedule_nt_eq:
  assumes ne: "exec_domain s \<noteq> []"
    and hw: "harnessWorkAmount s = prod_list (butlast (exec_domain s))"
  shows "schedule_nt s nthr sc =
     Inr (map (\<lambda>ithr. map (nt_call (butlast (exec_domain s)) sc)
                         (thread_range (harnessWorkAmount s) nthr ithr)) [0..<nthr])"
proof (rule schedule_nt_eq_pos [OF ne], intro impI allI)
  fix j assume w: "0 < harnessWorkAmount s" and j: "j < length (exec_domain s) - 1"
  have "0 < prod_list (butlast (exec_domain s))" using w hw by simp
  then have "0 < butlast (exec_domain s) ! j" using j by (intro prod_list_pos_nth) auto
  then show "0 < exec_domain s ! j" using j by (simp add: nth_butlast)
qed

lemma butlast_six:
  assumes "length (ed :: nat list) = 6"
  shows "butlast ed = [ed ! 0, ed ! 1, ed ! 2, ed ! 3, ed ! 4]"
proof (rule nth_equalityI)
  show "length (butlast ed) = length [ed ! 0, ed ! 1, ed ! 2, ed ! 3, ed ! 4]"
    using assms by simp
next
  fix i assume "i < length (butlast ed)"
  then have i: "i < 5" using assms by simp
  then have "butlast ed ! i = ed ! i" using assms by (simp add: nth_butlast)
  moreover have "[ed ! 0, ed ! 1, ed ! 2, ed ! 3, ed ! 4] ! i = ed ! i"
    using i by (auto simp: less_Suc_eq numeral_eq_Suc)
  ultimately show "butlast ed ! i = [ed ! 0, ed ! 1, ed ! 2, ed ! 3, ed ! 4] ! i" by simp
qed

lemma parallel_for5d_eq:
  assumes "length (ed :: nat list) = 6"
  shows "parallel_for5d nthr (ed ! 0) (ed ! 1) (ed ! 2) (ed ! 3) (ed ! 4) body =
     map (\<lambda>ithr. map (\<lambda>iwork. body ithr (map int (mixed_radix (butlast ed) iwork)))
                    (thread_range (prod_list (butlast ed)) nthr ithr)) [0..<nthr]"
  by (simp add: parallel_for5d_def butlast_six [OF assms] thread_range_def split_def mult.assoc)

lemma visited_threads:
  assumes "0 < nthr" and "\<And>ithr i. call_indexes (f ithr i) = map int (mixed_radix ds i)"
  shows "visited (map (\<lambda>ithr. map (f ithr) (thread_range n nthr ithr)) [0..<nthr])
         = map (\<lambda>i. map int (mixed_radix ds i)) [0..<n]"
proof -
  have "visited (map (\<lambda>ithr. map (f ithr) (thread_range n nthr ithr)) [0..<nthr])
        = concat (map (\<lambda>ithr. map (\<lambda>i. map int (mixed_radix ds i)) (thread_range n nthr ithr)) [0..<nthr])"
    by (simp add: visited_def map_concat comp_def assms(2))
  also have "\<dots> = map (\<lambda>i. map int (mixed_radix ds i)) (concat (map (thread_range n nthr) [0..<nthr]))"
    by (simp add: map_concat comp_def)
  also have "\<dots> = map (\<lambda>i. map int (mixed_radix ds i)) [0..<n]"
    using assms(1) by (simp add: thread_range_concat)
  finally show ?thesis .
qed

lemma covers:
  assumes "visited threads = map (\<lambda>i. map int (mixed_radix (butlast ed) i)) [0..<prod_list (butlast ed)]"
  shows "distinct (visited threads) \<and>
         (\<forall>idx. idx \<in> set (visited threads) \<longleftrightarrow> harness_coordinate ed idx)"
  unfolding assms harness_coordinate_def by (rule coverage)

lemma index_loop_error: "index_loop n ws tmp idx = Inl e \<Longrightarrow> e = DivByZero"
  by (induction n arbitrary: tmp idx) (auto split: if_splits)

lemma iwork_loop_error: "iwork_loop ws sc n_end iwork idx = Inl e \<Longrightarrow> e = DivByZero"
proof (induction ws sc n_end iwork idx rule: iwork_loop.induct)
  case (1 ws sc n_end iwork idx)
  show ?case
  proof (cases "iwork < n_end")
    case False
    then show ?thesis using "1.prems" by (subst (asm) iwork_loop.simps) simp
  next
    case True
    show ?thesis
    proof (cases "index_loop (length ws - 1) ws iwork idx")
      case (Inl e')
      then have "e = e'" using "1.prems" True by (subst (asm) iwork_loop.simps) simp
      then show ?thesis using Inl index_loop_error by blast
    next
      case (Inr idx')
      then have "iwork_loop ws sc n_end (Suc iwork) idx' = Inl e"
        using "1.prems" True by (subst (asm) iwork_loop.simps) (auto split: sum.splits)
      then show ?thesis using "1.IH" [OF True Inr] by simp
    qed
  qed
qed

lemma collect_error: "collect xs = Inl e \<Longrightarrow> Inl e \<in> set xs"
proof (induction xs)
  case Nil
  then show ?case by simp
next
  case (Cons x xs)
  then show ?case by (cases x) (auto split: sum.splits)
qed

lemma schedule_nt_error: "schedule_nt s nthr sc \<noteq> Inl IEThrow"
proof
  assume a: "schedule_nt s nthr sc = Inl IEThrow"
  then have ne: "exec_domain s \<noteq> []" by (auto simp: schedule_nt_def Let_def split: if_splits)
  then have "collect (parallel_nt nthr (\<lambda>ithr nthr.
                case splitter (harnessWorkAmount s) nthr ithr of (n_start, n_end) \<Rightarrow>
                  iwork_loop (exec_domain s) sc n_end n_start
                    (replicate (length (exec_domain s) - 1) 0))) = Inl IEThrow"
    using a unfolding schedule_nt_def Let_def by simp
  then have "Inl IEThrow \<in> set (parallel_nt nthr (\<lambda>ithr nthr.
                case splitter (harnessWorkAmount s) nthr ithr of (n_start, n_end) \<Rightarrow>
                  iwork_loop (exec_domain s) sc n_end n_start
                    (replicate (length (exec_domain s) - 1) 0)))"
    by (rule collect_error)
  then obtain ithr where "(case splitter (harnessWorkAmount s) nthr ithr of (n_start, n_end) \<Rightarrow>
                  iwork_loop (exec_domain s) sc n_end n_start
                    (replicate (length (exec_domain s) - 1) 0)) = Inl IEThrow"
    unfolding parallel_nt_def by auto
  then show False by (auto split: prod.splits dest: iwork_loop_error)
qed

lemma schedule_6d_error: "schedule_6d s nthr sc \<noteq> Inl IEThrow"
  by (simp add: schedule_6d_def Let_def)

lemma schedule_6d_dynamic_error: "schedule_6d_dynamic s nthr sp \<noteq> Inl IEThrow"
  by (simp add: schedule_6d_dynamic_def Let_def)

lemma dispatched_error:
  "r \<noteq> Inl IEThrow \<Longrightarrow> exec_error (dispatched n r) \<noteq> Some IEThrow"
  by (cases r) (auto simp: dispatched_def)

lemma dispatched_Inr:
  "exec_error (dispatched n (Inr calls)) = None \<and> exec_calls (dispatched n (Inr calls)) = calls"
  by (simp add: dispatched_def)

lemma schedule_6d_eq:
  assumes "length (exec_domain s) = 6"
  shows "schedule_6d s nthr sc =
     Inr (map (\<lambda>ithr. map (nt_call (butlast (exec_domain s)) sc)
                         (thread_range (prod_list (butlast (exec_domain s))) nthr ithr)) [0..<nthr])"
  using assms
    parallel_for5d_eq [OF assms, of nthr "\<lambda>ithr indexes. \<lparr> call_indexes = indexes, call_scratchpad = sc \<rparr>"]
  by (simp add: schedule_6d_def Let_def nt_call_def [abs_def])

lemma schedule_6d_dynamic_eq:
  assumes "length (exec_domain s) = 6"
  shows "schedule_6d_dynamic s nthr sp =
     Inr (map (\<lambda>ithr. map (\<lambda>i. nt_call (butlast (exec_domain s))
                                   (Some (map (\<lambda>i. sp + i * (isa_num_lanes s * inputShapes_size s))
                                            [0..<nthr] ! ithr)) i)
                         (thread_range (prod_list (butlast (exec_domain s))) nthr ithr)) [0..<nthr])"
  using assms
    parallel_for5d_eq [OF assms, of nthr "\<lambda>ithr indexes. \<lparr> call_indexes = indexes,
        call_scratchpad = Some (map (\<lambda>i. sp + i * (isa_num_lanes s * inputShapes_size s)) [0..<nthr] ! ithr) \<rparr>"]
  by (simp add: schedule_6d_dynamic_def Let_def nt_call_def [abs_def])

lemma thread_range_length:
  "length (thread_range n team tid) = n div team + (if tid < n mod team then 1 else 0)"
  by (simp add: thread_range_def splitter_def Let_def)

lemma call_indexes_nt_call: "call_indexes (nt_call ds sc i) = map int (mixed_radix ds i)"
  by (simp add: nt_call_def)

lemma prepareParams_dynamic:
  assumes "isDynamic s"
    and "to_size_t (accumulate_mul m 1) = full"
    and "optimizeExecDomain mt full ins outs m 1 = Inr (ins', outs', domain', tr')"
    and "tile_loop tr' (full, resize maxTileRank 1 (scheduler_work_amounts s), domain') = Inr (h, sw, ed)"
  shows "\<exists>s'. prepareParams s prc (m, ins, outs) mt = Inr s' \<and> isDynamic s' \<and>
              scheduling_summary s' = (tr', sw, h, ed, domain')"
  using assms by (simp add: prepareParams_def Let_def scheduling_summary_def)

subsection \<open>Dispatch: coverage by a node ready for dispatch\<close>

text \<open>
  For a node ready for dispatch and at least one thread, \<^verbatim>\<open>execute\<close> throws
  nothing, and the index vectors at which the kernel is invoked, taken over all threads,
  are exactly the harness coordinates of the execution domain, each one once: the list of
  all visited index vectors has no duplicates and its set is the set of harness
  coordinates. This holds for each strategy \<^verbatim>\<open>execute\<close> selects (\<^verbatim>\<open>schedule_6d\<close>,
  \<^verbatim>\<open>schedule_6d_dynamic\<close>, \<^verbatim>\<open>schedule_nt\<close>). Under the flat strategy \<^verbatim>\<open>schedule_nt\<close>, thread
  \<open>ithr\<close> calls the kernel on the mixed-radix digits (over the harness extents) of the
  linear indices of its range, in increasing order; the ranges of the threads are
  contiguous, follow each other and make up \<open>[0, harnessWorkAmount)\<close>; each has
  \<open>harnessWorkAmount div nthr\<close> indices, and the first \<open>harnessWorkAmount mod nthr\<close>
  threads have one more. The partitioner and the 5-dimensional loop are modelled from
  the spec.
\<close>

lemma dispatch_coverage:
  assumes ready: "dispatch_ready s" and nthr: "0 < nthr"
  shows "exec_error (execute s nthr) = None \<and>
         length (exec_calls (execute s nthr)) = nthr \<and>
         distinct (visited (exec_calls (execute s nthr))) \<and>
         (\<forall>idx. idx \<in> set (visited (exec_calls (execute s nthr)))
                  \<longleftrightarrow> harness_coordinate (exec_domain s) idx) \<and>
         schedule_nt s nthr sc =
           Inr (map (\<lambda>ithr. map (nt_call (butlast (exec_domain s)) sc)
                               (thread_range (harnessWorkAmount s) nthr ithr)) [0..<nthr]) \<and>
         concat (map (thread_range (harnessWorkAmount s) nthr) [0..<nthr])
           = [0..<harnessWorkAmount s] \<and>
         (\<forall>ithr. length (thread_range (harnessWorkAmount s) nthr ithr)
                   = harnessWorkAmount s div nthr
                     + (if ithr < harnessWorkAmount s mod nthr then 1 else 0))"
proof -
  let ?H = "butlast (exec_domain s)"
  let ?W = "harnessWorkAmount s"
  have ne: "exec_domain s \<noteq> []" and hw: "?W = prod_list ?H"
    and ptr: "schedule_ptr_nonnull s" "canUseOptimizedImpl s"
    and len: "length (exec_domain s) = tensorRank s"
    and dyn: "isDynamic s \<longrightarrow> tensorRank s = rank6D"
    using ready by (auto simp: dispatch_ready_def)
  note nt = schedule_nt_eq [OF ne hw]
  have ex: "\<exists>f. (\<forall>ithr i. call_indexes (f ithr i) = map int (mixed_radix ?H i)) \<and>
               exec_error (execute s nthr) = None \<and>
               exec_calls (execute s nthr)
                 = map (\<lambda>ithr. map (f ithr) (thread_range (prod_list ?H) nthr ithr)) [0..<nthr]"
  proof (cases "tensorRank s = rank6D")
    case True
    then have six: "length (exec_domain s) = 6" using len by (simp add: rank6D_def)
    show ?thesis
    proof (cases "isDynamic s \<and> list_ex (\<lambda>x. x) (broadcasting_mask s)")
      case T: True
      let ?f = "\<lambda>ithr i. nt_call ?H (Some (map (\<lambda>i. 0 + i * (isa_num_lanes s * inputShapes_size s))
                                            [0..<nthr] ! ithr)) i"
      have a: "exec_error (execute s nthr) = None \<and>
            exec_calls (execute s nthr)
              = map (\<lambda>ithr. map (?f ithr) (thread_range (prod_list ?H) nthr ithr)) [0..<nthr]"
        using T True ptr
        by (simp add: execute_def Let_def schedule_6d_dynamic_eq [OF six] dispatched_Inr)
      have b: "\<forall>ithr i. call_indexes (?f ithr i) = map int (mixed_radix ?H i)"
        by (simp add: call_indexes_nt_call)
      show ?thesis by (rule exI [of _ ?f]) (use a b in blast)
    next
      case F: False
      have "\<exists>n sc'. execute s nthr = dispatched n (schedule_6d s nthr sc')"
      proof (cases "isDynamic s")
        case dy: True
        then have "execute s nthr = dispatched (if scratchpad_memory_chunk_size s = 0
                     then nthr * isa_num_lanes s * inputShapes_size s
                     else scratchpad_memory_chunk_size s) (schedule_6d s nthr (Some 0))"
          using F True ptr by (simp add: execute_def Let_def)
        then show ?thesis by blast
      next
        case st: False
        then have "execute s nthr = dispatched (scratchpad_memory_chunk_size s) (schedule_6d s nthr None)"
          using True ptr by (simp add: execute_def)
        then show ?thesis by blast
      qed
      then obtain n sc' where "execute s nthr = dispatched n (schedule_6d s nthr sc')" by blast
      then have a: "exec_error (execute s nthr) = None \<and>
            exec_calls (execute s nthr)
              = map (\<lambda>ithr. map (nt_call ?H sc') (thread_range (prod_list ?H) nthr ithr)) [0..<nthr]"
        using schedule_6d_eq [OF six, of nthr sc'] dispatched_Inr by metis
      have b: "\<forall>ithr i. call_indexes (nt_call ?H sc' i) = map int (mixed_radix ?H i)"
        by (simp add: call_indexes_nt_call)
      show ?thesis by (rule exI [of _ "\<lambda>ithr. nt_call ?H sc'"]) (use a b in blast)
    qed
  next
    case False
    then have st: "\<not> isDynamic s" using dyn by auto
    have a: "exec_error (execute s nthr) = None \<and>
          exec_calls (execute s nthr)
            = map (\<lambda>ithr. map (nt_call ?H None) (thread_range (prod_list ?H) nthr ithr)) [0..<nthr]"
      using False st ptr schedule_nt_eq [OF ne hw, of nthr None] hw
      by (simp add: execute_def dispatched_Inr)
    have b: "\<forall>ithr i. call_indexes (nt_call ?H None i) = map int (mixed_radix ?H i)"
      by (simp add: call_indexes_nt_call)
    show ?thesis by (rule exI [of _ "\<lambda>ithr. nt_call ?H None"]) (use a b in blast)
  qed
  then obtain f where f: "\<And>ithr i. call_indexes (f ithr i) = map int (mixed_radix ?H i)"
    and err: "exec_error (execute s nthr) = None"
    and calls: "exec_calls (execute s nthr)
                 = map (\<lambda>ithr. map (f ithr) (thread_range (prod_list ?H) nthr ithr)) [0..<nthr]"
    by blast
  have v: "visited (exec_calls (execute s nthr))
           = map (\<lambda>i. map int (mixed_radix ?H i)) [0..<prod_list ?H]"
    unfolding calls using nthr f by (rule visited_threads)
  note cov = covers [OF v]
  have l: "length (exec_calls (execute s nthr)) = nthr" unfolding calls by simp
  have c: "concat (map (thread_range ?W nthr) [0..<nthr]) = [0..<?W]"
    using nthr by (rule thread_range_concat)
  show ?thesis using err l cov nt c thread_range_length by blast
qed

lemma dispatch_coverage_static7:
  "dispatch_ready ex_static7 \<and> (0::nat) < 4 \<and>
   exec_error (execute ex_static7 4) = None \<and>
   length (exec_calls (execute ex_static7 4)) = 4 \<and>
   distinct (visited (exec_calls (execute ex_static7 4))) \<and>
   visited (exec_calls (execute ex_static7 4))
     = [[0, 0, 0, 0, 0, 0], [0, 0, 0, 0, 0, 1], [0, 0, 0, 0, 0, 2],
        [0, 0, 0, 0, 1, 0], [0, 0, 0, 0, 1, 1], [0, 0, 0, 0, 1, 2]] \<and>
   map (thread_range (harnessWorkAmount ex_static7) 4) [0, 1, 2, 3] = [[0, 1], [2, 3], [4], [5]]"
proof -
  have h: "dispatch_ready ex_static7" "(0::nat) < 4"
    by (simp_all add: dispatch_ready_def ex_static7_def)
  note c = dispatch_coverage [OF h, of None]
  have v: "visited (exec_calls (execute ex_static7 4))
     = [[0, 0, 0, 0, 0, 0], [0, 0, 0, 0, 0, 1], [0, 0, 0, 0, 0, 2],
        [0, 0, 0, 0, 1, 0], [0, 0, 0, 0, 1, 1], [0, 0, 0, 0, 1, 2]]"
    by code_simp
  have t: "map (thread_range (harnessWorkAmount ex_static7) 4) [0, 1, 2, 3] = [[0, 1], [2, 3], [4], [5]]"
    by code_simp
  show ?thesis using h c v t by (intro conjI) blast+
qed

subsection \<open>execute: errors before dispatch (claim C8)\<close>

text \<open>
  Claim C8: \<^verbatim>\<open>execute\<close> throws (\<^verbatim>\<open>IE_THROW\<close>) exactly when there is no compiled kernel, or
  the optimized implementation cannot be used, or, on the dynamic path, the tensor rank is
  not the supported rank 6; and an \<^verbatim>\<open>execute\<close> that throws has made no kernel call, so it
  leaves no partial output: both tests stand before the dispatch.
\<close>

theorem C8_execute_errors:
  "(exec_error (execute s nthr) = Some IEThrow) =
     (\<not> schedule_ptr_nonnull s \<or> \<not> canUseOptimizedImpl s \<or> (isDynamic s \<and> tensorRank s \<noteq> rank6D))
   \<and> (exec_error (execute s nthr) = Some IEThrow \<longrightarrow> exec_calls (execute s nthr) = [])"
proof -
  have A: "(exec_error (execute s nthr) = Some IEThrow) =
     (\<not> schedule_ptr_nonnull s \<or> \<not> canUseOptimizedImpl s \<or> (isDynamic s \<and> tensorRank s \<noteq> rank6D))"
    by (auto simp: execute_def Let_def dispatched_error schedule_nt_error schedule_6d_error
        schedule_6d_dynamic_error)
  have B: "exec_calls (execute s nthr) = []"
    if "\<not> schedule_ptr_nonnull s \<or> \<not> canUseOptimizedImpl s \<or> (isDynamic s \<and> tensorRank s \<noteq> rank6D)"
    using that by (auto simp: execute_def Let_def)
  show ?thesis using A B by blast
qed

theorem C8_execute_errors_witness:
  "isDynamic (ex_tile2\<lparr>tensorRank := 7\<rparr>) \<and> tensorRank (ex_tile2\<lparr>tensorRank := 7\<rparr>) \<noteq> rank6D \<and>
   exec_error (execute (ex_tile2\<lparr>tensorRank := 7\<rparr>) 4) = Some IEThrow \<and>
   exec_calls (execute (ex_tile2\<lparr>tensorRank := 7\<rparr>) 4) = [] \<and>
   exec_error (execute (ex_tile2\<lparr>schedule_ptr_nonnull := False\<rparr>) 4) = Some IEThrow \<and>
   exec_calls (execute (ex_tile2\<lparr>schedule_ptr_nonnull := False\<rparr>) 4) = []"
proof -
  have h: "isDynamic (ex_tile2\<lparr>tensorRank := 7\<rparr>)" "tensorRank (ex_tile2\<lparr>tensorRank := 7\<rparr>) \<noteq> rank6D"
    "\<not> schedule_ptr_nonnull (ex_tile2\<lparr>schedule_ptr_nonnull := False\<rparr>)"
    by (simp_all add: ex_tile2_def rank6D_def)
  show ?thesis
    using h C8_execute_errors [of "ex_tile2\<lparr>tensorRank := 7\<rparr>" 4]
      C8_execute_errors [of "ex_tile2\<lparr>schedule_ptr_nonnull := False\<rparr>" 4]
    by blast
qed

subsection \<open>prepareParams: what one call establishes\<close>

text \<open>
  For shapes of the rank of the master shape (3 or more) with at least one and fewer than
  \<open>2 ^ 31\<close> elements, \<^verbatim>\<open>prepareParams\<close> returns; the tile rank is 1 or 2; the execution domain
  is the optimized master shape with its trailing \<^verbatim>\<open>tileRank\<close> extents set to 1;
  \<^verbatim>\<open>harnessWorkAmount\<close> is the number of harness coordinates; and \<^verbatim>\<open>scheduler_work_amounts\<close>
  ends with the trailing extents of the master shape. The entries before them are those
  of \<^verbatim>\<open>resize(maxTileRank, 1)\<close>: 1 when the vector was empty, what the vector held
  otherwise.
\<close>

lemma tile_loop_result:
  assumes tr: "tr = 1 \<or> tr = 2" and len: "2 \<le> length exec" and sched: "length sched = 2"
    and pos: "0 < prod_list exec"
  shows "tile_loop tr (prod_list exec, sched, exec)
         = Inr (prod_list (take (length exec - tr) exec),
                take (2 - tr) sched @ drop (length exec - tr) exec,
                take (length exec - tr) exec @ replicate tr 1)"
proof -
  obtain pre a b where e: "exec = pre @ [a, b]"
    using split_last_two [OF len] by blast
  obtain x y where s: "sched = [x, y]"
    using sched by (cases sched; cases "tl sched") auto
  have ab: "0 < a" "0 < b" using pos e by auto
  have u: "[0..<2] = [0, 1]" by (simp add: upt_rec)
  show ?thesis
  proof (cases "tr = 1")
    case True
    have "prod_list pre * a * b div b = prod_list pre * a" using ab by simp
    then show ?thesis
      using True ab by (simp add: e s tile_loop_def tile_step_def Let_def nth_append mult.assoc
          list_update_append)
  next
    case False
    then have t: "tr = 2" using tr by simp
    have d: "prod_list pre * a * b div b div a = prod_list pre" using ab by simp
    show ?thesis
      using t ab d
      by (simp add: e s tile_loop_def tile_step_def Let_def nth_append u list_update_append
          mult.assoc numeral_2_eq_2)
  qed
qed

lemma prepareParams_eq:
  assumes "entry_shapes s live = (m, ins, outs)"
    and "to_size_t (accumulate_mul m 1) = full"
    and "optimizeExecDomain mt full ins outs m 1 = Inr (ins', outs', domain', tr')"
    and "tile_loop tr' (full, resize maxTileRank 1 (scheduler_work_amounts s), domain') = Inr (h, sw, ed)"
  shows "\<exists>s'. prepareParams s prc live mt = Inr s' \<and>
              scheduling_summary s' = (tr', sw, h, ed, domain') \<and>
              isDynamic s' = isDynamic s \<and> tensorRank s' = tensorRank s \<and>
              schedule_ptr_nonnull s' = schedule_ptr_nonnull s \<and>
              canUseOptimizedImpl s' = canUseOptimizedImpl s"
  using assms
  by (cases "isDynamic s") (simp_all add: prepareParams_def Let_def scheduling_summary_def entry_shapes_def)

lemma prepareParams_scheduling:
  assumes shapes: "entry_shapes s live = (m, ins, outs)"
    and valid: "exec_domain_valid ins outs m"
    and pos: "0 < prod_list m" and small: "prod_list m < 2 ^ 31"
  shows "\<exists>s'. prepareParams s prc live mt = Inr s' \<and>
           (tileRank s' = 1 \<or> tileRank s' = 2) \<and>
           length (masterShape s') = length m \<and>
           prod_list (masterShape s') = prod_list m \<and>
           exec_domain s' = take (length m - tileRank s') (masterShape s') @ replicate (tileRank s') 1 \<and>
           harnessWorkAmount s' = prod_list (butlast (exec_domain s')) \<and>
           harnessWorkAmount s' * prod_list (drop (length m - tileRank s') (masterShape s'))
             = prod_list m \<and>
           scheduler_work_amounts s'
             = take (maxTileRank - tileRank s') (resize maxTileRank 1 (scheduler_work_amounts s))
               @ drop (length m - tileRank s') (masterShape s') \<and>
           isDynamic s' = isDynamic s \<and> tensorRank s' = tensorRank s \<and>
           schedule_ptr_nonnull s' = schedule_ptr_nonnull s \<and>
           canUseOptimizedImpl s' = canUseOptimizedImpl s"
proof -
  have full: "to_size_t (accumulate_mul m 1) = prod_list m"
    using small by (rule fullWorkAmount_small)
  obtain ins' outs' d tr where
    opt: "optimizeExecDomain mt (prod_list m) ins outs m 1 = Inr (ins', outs', d, tr)"
    and pd: "prod_list d = prod_list m" and ld: "length d = length m"
    and tr: "1 \<le> tr" "tr \<le> max 1 maxTileRank"
    using optimizeExecDomain_total [OF valid, of "prod_list m" mt 1] by auto
  have tr12: "tr = 1 \<or> tr = 2" using tr by (auto simp: maxTileRank_def)
  have n3: "3 \<le> length m" using valid by (simp add: exec_domain_valid_def)
  then have l2: "2 \<le> length d" using ld by simp
  let ?sched = "resize maxTileRank 1 (scheduler_work_amounts s)"
  have ls: "length ?sched = 2" by (simp add: resize_def maxTileRank_def)
  have pos': "0 < prod_list d" using pos pd by simp
  have tl: "tile_loop tr (prod_list m, ?sched, d)
        = Inr (prod_list (take (length d - tr) d),
               take (2 - tr) ?sched @ drop (length d - tr) d,
               take (length d - tr) d @ replicate tr 1)"
    using tile_loop_result [OF tr12 l2 ls pos'] pd by simp
  obtain s' where s': "prepareParams s prc live mt = Inr s'"
    and sum: "scheduling_summary s'
       = (tr, take (2 - tr) ?sched @ drop (length d - tr) d,
          prod_list (take (length d - tr) d), take (length d - tr) d @ replicate tr 1, d)"
    and rest: "isDynamic s' = isDynamic s" "tensorRank s' = tensorRank s"
      "schedule_ptr_nonnull s' = schedule_ptr_nonnull s"
      "canUseOptimizedImpl s' = canUseOptimizedImpl s"
    using prepareParams_eq [OF shapes full opt tl] by blast
  have f: "tileRank s' = tr" "masterShape s' = d"
    "exec_domain s' = take (length d - tr) d @ replicate tr 1"
    "harnessWorkAmount s' = prod_list (take (length d - tr) d)"
    "scheduler_work_amounts s' = take (2 - tr) ?sched @ drop (length d - tr) d"
    using sum by (simp_all add: scheduling_summary_def)
  have bl: "butlast (take (length d - tr) d @ replicate tr 1)
            = take (length d - tr) d @ replicate (tr - 1) 1"
    using tr12 by (auto simp: butlast_append numeral_2_eq_2)
  have "prod_list (butlast (exec_domain s'))
        = prod_list (take (length d - tr) d @ replicate (tr - 1) 1)"
    by (simp only: f bl)
  then have hw: "harnessWorkAmount s' = prod_list (butlast (exec_domain s'))"
    by (simp add: f)
  have "prod_list (take (length d - tr) d) * prod_list (drop (length d - tr) d) = prod_list d"
    by (simp only: prod_list.append [symmetric] append_take_drop_id)
  then have tot: "harnessWorkAmount s' * prod_list (drop (length m - tileRank s') (masterShape s'))
             = prod_list m"
    using pd ld by (simp add: f)
  show ?thesis
    using s' tr12 ld pd hw tot rest by (intro exI [of _ s']) (simp add: f maxTileRank_def)
qed

lemma prepareParams_first_call:
  assumes shapes: "entry_shapes s live = (m, ins, outs)"
    and valid: "exec_domain_valid ins outs m"
    and pos: "0 < prod_list m" and small: "prod_list m < 2 ^ 31"
    and fresh: "scheduler_work_amounts s = []"
  shows "\<exists>s'. prepareParams s prc live mt = Inr s' \<and>
           drop (length m - tileRank s') (exec_domain s') = replicate (tileRank s') 1 \<and>
           scheduler_work_amounts s'
             = replicate (maxTileRank - tileRank s') 1
               @ drop (length m - tileRank s') (masterShape s') \<and>
           harnessWorkAmount s' * prod_list (scheduler_work_amounts s') = prod_list m"
proof -
  obtain s' where s': "prepareParams s prc live mt = Inr s'"
    and tr: "tileRank s' = 1 \<or> tileRank s' = 2"
    and ld: "length (masterShape s') = length m"
    and ed: "exec_domain s'
             = take (length m - tileRank s') (masterShape s') @ replicate (tileRank s') 1"
    and tot: "harnessWorkAmount s' * prod_list (drop (length m - tileRank s') (masterShape s'))
              = prod_list m"
    and sw: "scheduler_work_amounts s'
             = take (maxTileRank - tileRank s') (resize maxTileRank 1 (scheduler_work_amounts s))
               @ drop (length m - tileRank s') (masterShape s')"
    using prepareParams_scheduling [OF shapes valid pos small, of prc mt] by blast
  have n3: "3 \<le> length m" using valid by (simp add: exec_domain_valid_def)
  have a: "drop (length m - tileRank s') (exec_domain s') = replicate (tileRank s') 1"
    using tr ld n3 by (auto simp: ed)
  have b: "scheduler_work_amounts s'
             = replicate (maxTileRank - tileRank s') 1
               @ drop (length m - tileRank s') (masterShape s')"
    using tr by (auto simp: sw fresh resize_def maxTileRank_def)
  have c: "harnessWorkAmount s' * prod_list (scheduler_work_amounts s') = prod_list m"
    using tot by (simp add: b)
  show ?thesis using s' a b c by blast
qed

lemma prepareParams_dispatch_ready:
  assumes shapes: "entry_shapes s live = (m, ins, outs)"
    and valid: "exec_domain_valid ins outs m"
    and pos: "0 < prod_list m" and small: "prod_list m < 2 ^ 31"
    and rank: "tensorRank s = length m" "isDynamic s \<longrightarrow> tensorRank s = rank6D"
    and impl: "canUseOptimizedImpl s"
  shows "\<exists>s'. prepareParams s prc live mt = Inr s' \<and>
              dispatch_ready (s'\<lparr>schedule_ptr_nonnull := True\<rparr>)"
proof -
  obtain s' where s': "prepareParams s prc live mt = Inr s'"
    and tr: "tileRank s' = 1 \<or> tileRank s' = 2"
    and ld: "length (masterShape s') = length m"
    and ed: "exec_domain s'
             = take (length m - tileRank s') (masterShape s') @ replicate (tileRank s') 1"
    and hw: "harnessWorkAmount s' = prod_list (butlast (exec_domain s'))"
    and rest: "isDynamic s' = isDynamic s" "tensorRank s' = tensorRank s"
      "canUseOptimizedImpl s' = canUseOptimizedImpl s"
    using prepareParams_scheduling [OF shapes valid pos small, of prc mt] by blast
  have n3: "3 \<le> length m" using valid by (simp add: exec_domain_valid_def)
  have le: "length (exec_domain s') = length m" using tr ld n3 by (auto simp: ed)
  then have ne: "exec_domain s' \<noteq> []" using n3 by auto
  have "dispatch_ready (s'\<lparr>schedule_ptr_nonnull := True\<rparr>)"
    using le ne hw rest rank impl by (simp add: dispatch_ready_def)
  then show ?thesis using s' by blast
qed

subsection \<open>Dispatch: the truncated work amount (claim C2)\<close>

lemma folded_seven: "folded [a, b, c, d, e, f, g] = [1, a, b, c, d, e, g * f]"
  by (simp add: folded_def)

lemma optimize_big7:
  "optimizeExecDomain 4 18446744071562067968 [[1, 1, 1, 1, 1, 16777216, 128]]
       [[1, 1, 1, 1, 1, 16777216, 128]] [1, 1, 1, 1, 1, 16777216, 128] 1
   = Inr ([[1, 1, 1, 1, 1, 1, 2147483648]], [[1, 1, 1, 1, 1, 1, 2147483648]],
          [1, 1, 1, 1, 1, 1, 2147483648], 1)"
proof -
  let ?m = "[1, 1, 1, 1, 1, 16777216, 128] :: nat list"
  let ?d = "[1, 1, 1, 1, 1, 1, 2147483648] :: nat list"
  let ?full = "18446744071562067968 :: nat"
  have e: "loop_entered ?full 0 128 ?m"
    by (simp add: loop_entered_def minimalJitWorkAmount_def)
  have c: "canCollapse_loop [?m] = Inr True"
    by (simp add: broadcast_mismatch_def)
  have n: "next_amount 128 ?m = 2147483648"
    by (simp add: next_amount_def)
  have f: "collapse_all [?m] = Inr [?d]" "collapseLastDims ?m 1 = Inr ?d"
    by (simp_all add: collapseLastDims_Suc0 folded_seven)
  have s: "\<not> loop_entered ?full 1 2147483648 ?d"
    by (simp add: loop_entered_def minimalJitWorkAmount_def)
  have "findDimsToCollapse_loop 4 ?full 0 128 [?m] [?m] ?m 1
        = findDimsToCollapse_loop 4 ?full (0 + 1) 2147483648 [?d] [?d] ?d 1"
    unfolding loop_step_entered [OF e] c n f by simp
  also have "\<dots> = Inr (state_result [?d] [?d] ?d 1 1)"
    using loop_stop_not_entered [OF s] by simp
  finally show ?thesis
    by (simp add: optimizeExecDomain_def findDimsToCollapse_def)
qed

lemma accumulate_big7:
  "to_size_t (accumulate_mul [1, 1, 1, 1, 1, 16777216, 128] 1) = 18446744071562067968"
  by (simp add: accumulate_mul_eq to_size_t_def)

lemma tile_loop_big7:
  "tile_loop 1 (18446744071562067968, [1, 1], [1, 1, 1, 1, 1, 1, 2147483648])
   = Inr (8589934591, [1, 2147483648], [1, 1, 1, 1, 1, 1, 1])"
  by (simp add: tile_loop_def tile_step_def)

lemma remdups_replicate: "remdups (replicate n x) = (if n = 0 then [] else [x])"
  by (induction n) auto

lemma mixed_radix_ones6: "mixed_radix [1, 1, 1, 1, 1, 1] i = [0, 0, 0, 0, 0, 0]"
  by (simp add: mixed_radix_def)

lemma flat_dispatch_ones:
  assumes st: "\<not> isDynamic s" and rk: "tensorRank s \<noteq> rank6D"
    and ok: "schedule_ptr_nonnull s" "canUseOptimizedImpl s"
    and ed: "exec_domain s = [1, 1, 1, 1, 1, 1, 1]" and nthr: "0 < nthr"
  shows "dispatch_summary nthr s
         = (None, harnessWorkAmount s, if harnessWorkAmount s = 0 then [] else [[0, 0, 0, 0, 0, 0]])"
proof -
  let ?W = "harnessWorkAmount s"
  have ne: "exec_domain s \<noteq> []" by (simp add: ed)
  have pos: "0 < ?W \<longrightarrow> (\<forall>j<length (exec_domain s) - 1. 0 < exec_domain s ! j)"
    by (auto simp: ed nth_Cons split: nat.splits)
  have nt: "schedule_nt s nthr None =
     Inr (map (\<lambda>ithr. map (nt_call [1, 1, 1, 1, 1, 1] None) (thread_range ?W nthr ithr)) [0..<nthr])"
    using schedule_nt_eq_pos [OF ne pos, of nthr None] by (simp add: ed)
  have ex: "execute s nthr = dispatched (scratchpad_memory_chunk_size s) (schedule_nt s nthr None)"
    using st rk ok by (simp add: execute_def)
  have err: "exec_error (execute s nthr) = None"
    and calls: "exec_calls (execute s nthr)
       = map (\<lambda>ithr. map (nt_call [1, 1, 1, 1, 1, 1] None) (thread_range ?W nthr ithr)) [0..<nthr]"
    unfolding ex nt by (simp_all add: dispatched_Inr)
  have "visited (exec_calls (execute s nthr))
        = map (\<lambda>i. map int (mixed_radix [1, 1, 1, 1, 1, 1] i)) [0..<?W]"
    unfolding calls using nthr call_indexes_nt_call by (rule visited_threads)
  also have "\<dots> = replicate ?W [0, 0, 0, 0, 0, 0]"
    unfolding mixed_radix_ones6 by (simp add: map_replicate_const)
  finally have v: "visited (exec_calls (execute s nthr)) = replicate ?W [0, 0, 0, 0, 0, 0]" .
  show ?thesis
    by (simp add: dispatch_summary_def Let_def err v remdups_replicate)
qed

text \<open>
  Claim C2 does not hold for a tensor of \<open>2 ^ 31\<close> elements or more under the flat
  strategy. \<^verbatim>\<open>prepareParams\<close> computes \<^verbatim>\<open>fullWorkAmount\<close> with
  \<^verbatim>\<open>std::accumulate(tmpShape.begin(), tmpShape.end(), 1, std::multiplies<size_t>())\<close>: the
  functor multiplies in \<^verbatim>\<open>size_t\<close>, but the initial value \<^verbatim>\<open>1\<close> makes the accumulator a 32-bit
  \<^verbatim>\<open>int\<close>. For the static node \<open>ex_big7\<close> of rank 7, master shape
  \<open>[1, 1, 1, 1, 1, 16777216, 128]\<close>, on 4 threads, the accumulator ends at \<open>- 2 ^ 31\<close> and
  \<^verbatim>\<open>fullWorkAmount\<close> is \<open>2 ^ 64 - 2 ^ 31\<close>. The optimizer folds the domain to
  \<open>[1, 1, 1, 1, 1, 1, 2147483648]\<close>; the execution domain is all ones, with a single
  harness coordinate, but \<^verbatim>\<open>harnessWorkAmount\<close> is \<open>8589934591\<close>. \<^verbatim>\<open>execute\<close> takes the flat
  strategy \<^verbatim>\<open>schedule_nt\<close>, which throws nothing and calls the kernel \<open>8589934591\<close> times, every
  time at the coordinate \<open>[0, 0, 0, 0, 0, 0]\<close>: not once, as the claim says. Below \<open>2 ^ 31\<close>
  elements \<^verbatim>\<open>prepareParams\<close> leaves the node ready for dispatch (lemma
  \<open>prepareParams_dispatch_ready\<close>) and every harness coordinate is visited exactly once
  (lemma \<open>dispatch_coverage\<close>).
\<close>

theorem C2_truncated_work_amount:
  "map_sum id scheduling_summary (createPrimitive ex_big7 4 4)
     = Inr (1, [1, 2147483648], 8589934591, [1, 1, 1, 1, 1, 1, 1], [1, 1, 1, 1, 1, 1, 2147483648]) \<and>
   map_sum id (dispatch_summary 4) (createPrimitive ex_big7 4 4)
     = Inr (None, 8589934591, [[0, 0, 0, 0, 0, 0]]) \<and>
   prod_list [1, 1, 1, 1, 1, 16777216, 128] = (2147483648 :: nat) \<and>
   prod_list (butlast [1, 1, 1, 1, 1, 1, 1]) = (1 :: nat)"
proof -
  have sh: "entry_shapes ex_big7 (masterShape ex_big7, normInputShapes ex_big7, originalNormOutputShapes ex_big7)
            = ([1, 1, 1, 1, 1, 16777216, 128], [[1, 1, 1, 1, 1, 16777216, 128]],
               [[1, 1, 1, 1, 1, 16777216, 128]])"
    by (simp add: entry_shapes_def ex_big7_def)
  have tl: "tile_loop 1 (18446744071562067968, resize maxTileRank 1 (scheduler_work_amounts ex_big7),
                         [1, 1, 1, 1, 1, 1, 2147483648])
            = Inr (8589934591, [1, 2147483648], [1, 1, 1, 1, 1, 1, 1])"
    using tile_loop_big7 by (simp add: ex_big7_def resize_def maxTileRank_def numeral_2_eq_2)
  obtain s' where s': "prepareParams ex_big7 4
        (masterShape ex_big7, normInputShapes ex_big7, originalNormOutputShapes ex_big7) 4 = Inr s'"
    and sum: "scheduling_summary s'
       = (1, [1, 2147483648], 8589934591, [1, 1, 1, 1, 1, 1, 1], [1, 1, 1, 1, 1, 1, 2147483648])"
    and rest: "isDynamic s' = isDynamic ex_big7" "tensorRank s' = tensorRank ex_big7"
      "canUseOptimizedImpl s' = canUseOptimizedImpl ex_big7"
    using prepareParams_eq [OF sh accumulate_big7 optimize_big7 tl] by blast
  let ?s = "s'\<lparr> schedule_ptr_nonnull := True \<rparr>"
  have cp: "createPrimitive ex_big7 4 4 = Inr ?s"
    using s' by (simp add: createPrimitive_def ex_big7_def)
  have f: "\<not> isDynamic ?s" "tensorRank ?s \<noteq> rank6D" "schedule_ptr_nonnull ?s"
    "canUseOptimizedImpl ?s" "exec_domain ?s = [1, 1, 1, 1, 1, 1, 1]"
    "harnessWorkAmount ?s = 8589934591"
    using sum rest by (simp_all add: scheduling_summary_def ex_big7_def rank6D_def)
  have a: "map_sum id scheduling_summary (createPrimitive ex_big7 4 4)
     = Inr (1, [1, 2147483648], 8589934591, [1, 1, 1, 1, 1, 1, 1], [1, 1, 1, 1, 1, 1, 2147483648])"
    using sum by (simp add: cp scheduling_summary_def)
  have "dispatch_summary 4 ?s = (None, 8589934591, [[0, 0, 0, 0, 0, 0]])"
    using flat_dispatch_ones [OF f(1-5), of 4] f(6) by simp
  then have b: "map_sum id (dispatch_summary 4) (createPrimitive ex_big7 4 4)
     = Inr (None, 8589934591, [[0, 0, 0, 0, 0, 0]])"
    by (simp add: cp)
  have c: "prod_list [1, 1, 1, 1, 1, 16777216, 128] = (2147483648 :: nat)"
    "prod_list (butlast [1, 1, 1, 1, 1, 1, 1]) = (1 :: nat)"
    by simp_all
  show ?thesis using a b c by (intro conjI)
qed

subsection \<open>prepareParams: the scheduler work amounts (claim C10)\<close>

text \<open>
  Claim C10 does not hold on the dynamic path, where \<^verbatim>\<open>prepareParams\<close> runs before every
  inference. \<^verbatim>\<open>scheduler_work_amounts.resize(maxTileRank, 1)\<close> fills with 1 only the entries
  it appends: once the vector has \<^verbatim>\<open>maxTileRank\<close> entries it keeps what the previous
  inference left there. A first inference with a tile of rank 2 leaves \<open>[4, 8]\<close>; a
  second inference on a vector of 512 elements (tile rank 1) then ends with
  \<open>scheduler_work_amounts = [4, 512]\<close> instead of \<open>[1, 512]\<close>, and
  \<open>harnessWorkAmount * 4 * 512 = 2048\<close> is not the element count 512 of the master shape.
  On a first call, when the vector is still empty, the three statements of the claim hold
  for every master shape of fewer than \<open>2 ^ 31\<close> elements (lemma
  \<open>prepareParams_first_call\<close>).
\<close>

theorem C10_stale_scheduler_work_amounts:
  "map_sum id scheduling_summary (prepareParams ex_fresh 4 ex_live1 4)
     = Inr (2, [4, 8], 16, [1, 1, 1, 16, 1, 1], [1, 1, 1, 16, 4, 8]) \<and>
   map_sum id scheduling_summary prepare_twice
     = Inr (1, [4, 512], 1, [1, 1, 1, 1, 1, 1], [1, 1, 1, 1, 1, 512]) \<and>
   1 * prod_list [4, 512] \<noteq> prod_list [1, 1, 1, 1, 1, 512 :: nat]"
proof -
  have acc1: "to_size_t (accumulate_mul [1, 1, 1, 16, 4, 8] 1) = 512"
    using fullWorkAmount_small [of "[1, 1, 1, 16, 4, 8]"] by simp
  have opt1: "optimizeExecDomain 4 512 [[1, 1, 1, 16, 4, 1], [1, 1, 1, 16, 1, 8]]
                 [[1, 1, 1, 16, 4, 8]] [1, 1, 1, 16, 4, 8] 1
       = Inr ([[1, 1, 1, 16, 4, 1], [1, 1, 1, 16, 1, 8]], [[1, 1, 1, 16, 4, 8]], [1, 1, 1, 16, 4, 8], 2)"
    by code_simp
  have tl1: "tile_loop 2 (512, resize maxTileRank 1 (scheduler_work_amounts ex_fresh), [1, 1, 1, 16, 4, 8])
       = Inr (16, [4, 8], [1, 1, 1, 16, 1, 1])"
    by code_simp
  obtain s1 where s1: "prepareParams ex_fresh 4 ex_live1 4 = Inr s1" "isDynamic s1"
    "scheduling_summary s1 = (2, [4, 8], 16, [1, 1, 1, 16, 1, 1], [1, 1, 1, 16, 4, 8])"
    using prepareParams_dynamic [OF _ acc1 opt1 tl1, of 4] unfolding ex_live1_def
    by (auto simp: ex_fresh_def)
  have sw1: "scheduler_work_amounts s1 = [4, 8]"
    using s1(3) by (simp add: scheduling_summary_def)
  have acc2: "to_size_t (accumulate_mul [1, 1, 1, 1, 1, 512] 1) = 512"
    using fullWorkAmount_small [of "[1, 1, 1, 1, 1, 512]"] by simp
  have opt2: "optimizeExecDomain 4 512 [[1, 1, 1, 1, 1, 512], [1, 1, 1, 1, 1, 512]]
                 [[1, 1, 1, 1, 1, 512]] [1, 1, 1, 1, 1, 512] 1
       = Inr ([[1, 1, 1, 1, 1, 512], [1, 1, 1, 1, 1, 512]], [[1, 1, 1, 1, 1, 512]], [1, 1, 1, 1, 1, 512], 1)"
    by code_simp
  have "tile_loop 1 (512, resize maxTileRank 1 [4, 8], [1, 1, 1, 1, 1, 512])
       = Inr (1, [4, 512], [1, 1, 1, 1, 1, 1])"
    by code_simp
  then have tl2: "tile_loop 1 (512, resize maxTileRank 1 (scheduler_work_amounts s1), [1, 1, 1, 1, 1, 512])
       = Inr (1, [4, 512], [1, 1, 1, 1, 1, 1])"
    by (simp only: sw1)
  obtain s2 where s2: "prepareParams s1 4 ex_live2 4 = Inr s2"
    "scheduling_summary s2 = (1, [4, 512], 1, [1, 1, 1, 1, 1, 1], [1, 1, 1, 1, 1, 512])"
    using prepareParams_dynamic [OF s1(2) acc2 opt2 tl2, of 4] unfolding ex_live2_def by auto
  have a: "map_sum id scheduling_summary (prepareParams ex_fresh 4 ex_live1 4)
     = Inr (2, [4, 8], 16, [1, 1, 1, 16, 1, 1], [1, 1, 1, 16, 4, 8])"
    using s1 by simp
  have b: "map_sum id scheduling_summary prepare_twice
     = Inr (1, [4, 512], 1, [1, 1, 1, 1, 1, 1], [1, 1, 1, 1, 1, 512])"
    using s1 s2 by (simp add: prepare_twice_def)
  have c: "1 * prod_list [4, 512] \<noteq> prod_list [1, 1, 1, 1, 1, 512 :: nat]"
    by simp
  show ?thesis using a b c by (intro conjI)
qed

end
